theory Spec2Isabelle
  imports Main "HOL-Library.Sublist" "HOL-Library.List_Lexorder" "HOL-Library.Char_ord"
    "HOL-Library.Product_Lexorder"
begin

section \<open>The onboarding wizard (web/app/page.tsx)\<close>

text \<open>
  The component \<^verbatim>\<open>AISecurityAgent\<close> keeps its state in React hooks: the current step,
  the set of completed steps, the form data, the progress of the simulated run and
  whether the simulation is running. Each hook is a field of the record \<open>wizard\<close>
  below; a handler of the source is a function from the old record to the new one.
  The hook \<^verbatim>\<open>copiedStates\<close> (the check marks of the copy buttons) is touched only by
  \<^verbatim>\<open>copyToClipboard\<close>, which reads and writes nothing else, and is left out.
\<close>

subsection \<open>Data\<close>

text \<open>
  \<^verbatim>\<open>const steps = ["welcome", "prerequisites", "clone", "setup", "configure", "consent",
  "run", "results"] as const\<close>, and \<^verbatim>\<open>type Step = (typeof steps)[number]\<close>.
\<close>

datatype Step = Welcome | Prerequisites | Clone | Setup | Configure | Consent | Run | Results

definition steps :: "Step list" where
  "steps = [Welcome, Prerequisites, Clone, Setup, Configure, Consent, Run, Results]"

text \<open>
  The JavaScript numbers of the wizard: the initial values and the results of
  \<^verbatim>\<open>Number.parseInt\<close>. Such a number is NaN, an infinity, or an integer that is a double
  (\<open>Num n\<close>; zero stands for both zeros, which the wizard does not tell apart).
\<close>

datatype number = NaN | Num int | PosInfinity | NegInfinity

text \<open>\<^verbatim>\<open>interface FormData\<close>.\<close>

record FormData =
  repoUrl :: string
  baseUrl :: string
  authHeader :: string
  unsafe :: bool
  ollamaModel :: string
  concurrency :: number
  delayMs :: number

text \<open>
  A value of the hook \<^verbatim>\<open>currentStep\<close> is a step, or \<^verbatim>\<open>undefined\<close> (\<open>None\<close>) when it was
  read from \<^verbatim>\<open>steps\<close> at an index outside the array: the type \<^verbatim>\<open>Step\<close> is erased at run
  time. An interval started by \<^verbatim>\<open>simulateRun\<close> is the pair of its counter
  \<^verbatim>\<open>currentPhase\<close> and the \<^verbatim>\<open>currentStep\<close> its closure captured.
\<close>

record wizard =
  currentStep :: "Step option"
  completedSteps :: "Step option set"
  formData :: FormData
  progress :: int
  isRunning :: bool
  intervals :: "(nat \<times> Step option) list"

text \<open>The first argument of \<^verbatim>\<open>useState<FormData>\<close>; the reset button stores the same object.\<close>

definition initialFormData :: FormData where
  "initialFormData =
     \<lparr>repoUrl = [], baseUrl = [], authHeader = [], unsafe = False,
      ollamaModel = ''llama3.2:latest'', concurrency = Num 3, delayMs = Num 200\<rparr>"

definition initialWizard :: wizard where
  "initialWizard =
     \<lparr>currentStep = Some Welcome, completedSteps = {}, formData = initialFormData,
      progress = 0, isRunning = False, intervals = []\<rparr>"

subsection \<open>Array operations of JavaScript\<close>

text \<open>\<^verbatim>\<open>Array.prototype.indexOf\<close>: the first index of the element, \<open>- 1\<close> when it is absent.\<close>

fun indexOfFrom :: "'a list \<Rightarrow> 'a \<Rightarrow> int \<Rightarrow> int" where
  "indexOfFrom [] x i = - 1"
| "indexOfFrom (y # ys) x i = (if y = x then i else indexOfFrom ys x (i + 1))"

definition indexOf :: "'a list \<Rightarrow> 'a \<Rightarrow> int" where
  "indexOf xs x = indexOfFrom xs x 0"

text \<open>\<^verbatim>\<open>xs[i]\<close>: the element, \<^verbatim>\<open>undefined\<close> outside the array.\<close>

definition at_index :: "'a list \<Rightarrow> int \<Rightarrow> 'a option" where
  "at_index xs i = (if 0 \<le> i \<and> i < int (length xs) then Some (xs ! nat i) else None)"

text \<open>\<^verbatim>\<open>steps.indexOf(currentStep)\<close>, where \<^verbatim>\<open>currentStep\<close> may be \<^verbatim>\<open>undefined\<close>.\<close>

definition stepIndex :: "Step option \<Rightarrow> int" where
  "stepIndex s = indexOf (map Some steps) s"

subsection \<open>Navigation\<close>

definition completeStep :: "Step option \<Rightarrow> wizard \<Rightarrow> wizard" where
  "completeStep step w = w\<lparr>completedSteps := insert step (completedSteps w)\<rparr>"

text \<open>
  \<^verbatim>\<open>nextStep\<close> and \<^verbatim>\<open>prevStep\<close> read \<^verbatim>\<open>currentStep\<close> from the closure of the render
  that created them. \<open>nextStepFrom\<close> takes that captured value; for a button of the
  current render it is the current step.
\<close>

definition nextStepFrom :: "Step option \<Rightarrow> wizard \<Rightarrow> wizard" where
  "nextStepFrom cur w =
     (let currentIndex = stepIndex cur in
      if currentIndex < int (length steps) - 1
      then (completeStep cur w)\<lparr>currentStep := at_index steps (currentIndex + 1)\<rparr>
      else w)"

definition nextStep :: "wizard \<Rightarrow> wizard" where
  "nextStep w = nextStepFrom (currentStep w) w"

definition prevStep :: "wizard \<Rightarrow> wizard" where
  "prevStep w =
     (let currentIndex = stepIndex (currentStep w) in
      if currentIndex > 0
      then w\<lparr>currentStep := at_index steps (currentIndex - 1)\<rparr>
      else w)"

datatype nav = NextStep | PrevStep

fun navigate :: "nav \<Rightarrow> wizard \<Rightarrow> wizard" where
  "navigate NextStep w = nextStep w"
| "navigate PrevStep w = prevStep w"

definition navigate_all :: "nav list \<Rightarrow> wizard \<Rightarrow> wizard" where
  "navigate_all ns w = fold navigate ns w"

subsection \<open>Numbers and strings of JavaScript\<close>

text \<open>
  The Number value of a mathematical integer (ECMAScript, 6.1.6.1): the nearest double,
  a tie going to the even significand, and an infinity from \<open>2 ^ 1024\<close> on.
  \<open>roundToDouble m\<close> keeps the 53 leading bits of \<open>m\<close>, rounded.
\<close>

fun bitLength :: "nat \<Rightarrow> nat" where
  "bitLength n = (if n = 0 then 0 else Suc (bitLength (n div 2)))"

declare bitLength.simps [simp del]

definition roundToDouble :: "nat \<Rightarrow> nat" where
  "roundToDouble m =
     (if m < 2 ^ 53 then m
      else (let e = bitLength m - 53; q = m div 2 ^ e; r = m mod 2 ^ e; half = 2 ^ (e - 1)
            in (if r > half \<or> (r = half \<and> odd q) then q + 1 else q) * 2 ^ e))"

definition numberValue :: "int \<Rightarrow> number" where
  "numberValue x =
     (let m = roundToDouble (nat \<bar>x\<bar>) in
      if 2 ^ 1024 \<le> m then (if x < 0 then NegInfinity else PosInfinity)
      else Num (if x < 0 then - int m else int m))"

text \<open>
  Strings are lists of code units below 256. \<^verbatim>\<open>Number.parseInt(string)\<close> with no radix
  (ECMAScript, Number.parseInt): leading white space is dropped, then an optional sign,
  then the prefix \<^verbatim>\<open>0x\<close> or \<^verbatim>\<open>0X\<close> selects radix 16 (radix 10 otherwise); the longest
  run of digits of the radix is the number, and the result is NaN when that run is
  empty. The result is the Number value of the signed integer that the digits denote
  (beyond 20 significant digits the standard also lets an implementation round the
  digits first; this is the exact choice).
\<close>

definition isWhiteSpace :: "char \<Rightarrow> bool" where
  "isWhiteSpace c \<longleftrightarrow>
     c \<in> set [CHR 0x09, CHR 0x0A, CHR 0x0B, CHR 0x0C, CHR 0x0D, CHR 0x20, CHR 0xA0]"

definition digitValue :: "char \<Rightarrow> nat option" where
  "digitValue c =
     (let n = (of_char c :: nat) in
      if 48 \<le> n \<and> n \<le> 57 then Some (n - 48)
      else if 97 \<le> n \<and> n \<le> 122 then Some (n - 87)
      else if 65 \<le> n \<and> n \<le> 90 then Some (n - 55)
      else None)"

definition isRadixDigit :: "nat \<Rightarrow> char \<Rightarrow> bool" where
  "isRadixDigit R c = (case digitValue c of Some d \<Rightarrow> d < R | None \<Rightarrow> False)"

definition mathInt :: "nat \<Rightarrow> string \<Rightarrow> nat" where
  "mathInt R Z = foldl (\<lambda>a c. a * R + (case digitValue c of Some d \<Rightarrow> d | None \<Rightarrow> 0)) 0 Z"

definition parseInt :: "string \<Rightarrow> number" where
  "parseInt inputString =
     (let S = dropWhile isWhiteSpace inputString;
          sign = (if S \<noteq> [] \<and> hd S = CHR ''-'' then - 1 else 1 :: int);
          S = (if S \<noteq> [] \<and> (hd S = CHR ''+'' \<or> hd S = CHR ''-'') then tl S else S);
          hex = (take 2 S = ''0x'' \<or> take 2 S = ''0X'');
          R = (if hex then 16 else 10);
          S = (if hex then drop 2 S else S);
          Z = takeWhile (isRadixDigit R) S
      in if Z = [] then NaN else numberValue (sign * int (mathInt R Z)))"

text \<open>\<^verbatim>\<open>a || b\<close> for numbers: NaN and zero are falsy.\<close>

definition number_or :: "number \<Rightarrow> number \<Rightarrow> number" where
  "number_or a b = (if a = NaN \<or> a = Num 0 then b else a)"

text \<open>The decimal digits of a natural number.\<close>

fun digits :: "nat \<Rightarrow> string" where
  "digits n =
     (if n < 10 then [char_of (48 + n)] else digits (n div 10) @ [char_of (48 + n mod 10)])"

declare digits.simps [simp del]

text \<open>
  \<^verbatim>\<open>Number.prototype.toString\<close> (ECMAScript, Number::toString with radix 10). The text
  of a positive number \<open>x\<close> comes from the integers \<open>s\<close>, \<open>k\<close>, \<open>n\<close> with \<open>k\<close> digits in
  \<open>s\<close>, the Number value of \<open>s * 10 ^ (n - k)\<close> equal to \<open>x\<close>, and \<open>k\<close> as small as
  possible (of several \<open>s\<close>, the one nearest to \<open>x\<close>, the even one on a tie): the digits
  of \<open>s\<close> and \<open>n - k\<close> zeros when \<open>n \<le> 21\<close>, the exponent form otherwise. Below
  \<open>2 ^ 53\<close> these are the decimal digits of \<open>x\<close>. \<open>candidates x D k\<close> lists the \<open>s\<close> of
  \<open>k\<close> digits for \<open>n = D\<close>, the nearest first.
\<close>

definition candidates :: "nat \<Rightarrow> nat \<Rightarrow> nat \<Rightarrow> nat list" where
  "candidates x D k =
     (let p = 10 ^ (D - k); s0 = x div p
      in filter (\<lambda>s. s < 10 ^ k \<and> roundToDouble (s * p) = x)
           (if 2 * (x mod p) < p \<or> (2 * (x mod p) = p \<and> even s0) then [s0, s0 + 1]
            else [s0 + 1, s0]))"

definition shortest :: "nat \<Rightarrow> nat \<times> nat" where
  "shortest x =
     (let D = length (digits x) in
      if roundToDouble (10 ^ D) = x then (1, D + 1)
      else (case concat (map (candidates x D) [1..<18]) of
              s # _ \<Rightarrow> (s, D)
            | [] \<Rightarrow> (x, D)))"

definition natToString :: "nat \<Rightarrow> string" where
  "natToString m =
     (if m < 2 ^ 53 then digits m
      else (case shortest (roundToDouble m) of (s, n) \<Rightarrow>
              (let ds = digits s; k = length ds in
               if n \<le> 21 then ds @ replicate (n - k) CHR ''0''
               else if k = 1 then ds @ ''e+'' @ digits (n - 1)
               else take 1 ds @ ''.'' @ drop 1 ds @ ''e+'' @ digits (n - 1))))"

definition numberToString :: "number \<Rightarrow> string" where
  "numberToString x =
     (case x of
        NaN \<Rightarrow> ''NaN''
      | PosInfinity \<Rightarrow> ''Infinity''
      | NegInfinity \<Rightarrow> ''-Infinity''
      | Num i \<Rightarrow> if i < 0 then CHR ''-'' # natToString (nat (- i)) else natToString (nat i))"

text \<open>A template's \<^verbatim>\<open>"${s}"\<close>: the string between two double quotes, nothing escaped.\<close>

definition quoted :: "string \<Rightarrow> string" where
  "quoted s = CHR 0x22 # s @ [CHR 0x22]"

subsection \<open>The generated command\<close>

definition generateCommand :: "FormData \<Rightarrow> string" where
  "generateCommand fd =
     (let cmd = ''source .venv/bin/activate && python3 -m secagent.cli --repo '' @ quoted (repoUrl fd)
            @ '' --base-url '' @ quoted (baseUrl fd)
            @ '' --ollama-model '' @ quoted (ollamaModel fd)
            @ '' --concurrency '' @ numberToString (concurrency fd)
            @ '' --delay-ms '' @ numberToString (delayMs fd)
            @ '' --verbose'';
          cmd = (if authHeader fd \<noteq> [] then cmd @ '' --auth-header '' @ quoted (authHeader fd) else cmd);
          cmd = (if unsafe fd then cmd @ '' --unsafe'' else cmd)
      in cmd)"

subsection \<open>The simulated run\<close>

text \<open>The \<^verbatim>\<open>progress\<close> fields of \<^verbatim>\<open>phases\<close> in \<^verbatim>\<open>simulateRun\<close>.\<close>

definition phases :: "int list" where
  "phases = [10, 30, 50, 60, 80, 100]"

definition simulateRun :: "wizard \<Rightarrow> wizard" where
  "simulateRun w =
     w\<lparr>isRunning := True, progress := 0, intervals := intervals w @ [(0, currentStep w)]\<rparr>"

text \<open>
  One firing of the callback of the \<open>k\<close>-th interval. Its \<^verbatim>\<open>nextStep\<close> is the one of the
  render in which \<^verbatim>\<open>simulateRun\<close> was called, so it reads the step captured then.
\<close>

definition intervalTick :: "nat \<Rightarrow> wizard \<Rightarrow> wizard" where
  "intervalTick k w =
     (if k < length (intervals w) then
        (case intervals w ! k of (currentPhase, captured) \<Rightarrow>
           if currentPhase < length phases
           then w\<lparr>progress := phases ! currentPhase,
                  intervals := (intervals w)[k := (currentPhase + 1, captured)]\<rparr>
           else nextStepFrom captured
                  (w\<lparr>isRunning := False,
                     intervals := take k (intervals w) @ drop (Suc k) (intervals w)\<rparr>))
      else w)"

subsection \<open>The handlers of the rendered widgets\<close>

text \<open>
  An event is a user action on a widget, or a firing of an interval. \<open>ClickNext\<close> is the
  forward button of a step ("Get Started", "Continue", "I've Cloned It", "Setup
  Complete", "I Understand & Consent"), \<open>ClickBack\<close> its "Back" button.
\<close>

datatype event =
    ClickNext
  | ClickBack
  | ChangeRepoUrl string
  | ChangeBaseUrl string
  | ChangeAuthHeader string
  | ChangeOllamaModel string
  | ChangeConcurrency string
  | CheckUnsafe bool
  | ClickStart
  | IntervalTick nat
  | ClickRunAnother

text \<open>\<^verbatim>\<open>disabled={!formData.repoUrl || !formData.baseUrl}\<close>: an empty string is falsy.\<close>

definition continueDisabled :: "wizard \<Rightarrow> bool" where
  "continueDisabled w \<longleftrightarrow> repoUrl (formData w) = [] \<or> baseUrl (formData w) = []"

text \<open>
  \<open>available w e\<close>: \<^verbatim>\<open>renderStep\<close> renders the widget of \<open>e\<close> in the current step, and it
  is not disabled. The default branch of the \<^verbatim>\<open>switch\<close> renders nothing.
\<close>

fun available :: "wizard \<Rightarrow> event \<Rightarrow> bool" where
  "available w ClickNext =
     (case currentStep w of
        Some Welcome \<Rightarrow> True
      | Some Prerequisites \<Rightarrow> True
      | Some Clone \<Rightarrow> True
      | Some Setup \<Rightarrow> True
      | Some Configure \<Rightarrow> \<not> continueDisabled w
      | Some Consent \<Rightarrow> True
      | _ \<Rightarrow> False)"
| "available w ClickBack =
     (case currentStep w of
        Some Prerequisites \<Rightarrow> True
      | Some Clone \<Rightarrow> True
      | Some Setup \<Rightarrow> True
      | Some Configure \<Rightarrow> True
      | Some Consent \<Rightarrow> True
      | Some Run \<Rightarrow> \<not> isRunning w
      | _ \<Rightarrow> False)"
| "available w ClickStart = (currentStep w = Some Run \<and> \<not> isRunning w)"
| "available w ClickRunAnother = (currentStep w = Some Results)"
| "available w (IntervalTick k) = (k < length (intervals w))"
| "available w _ = (currentStep w = Some Configure)"

text \<open>
  The handler of each widget; the form handlers are \<^verbatim>\<open>setFormData((prev) => ...)\<close>.
  The argument of \<open>CheckUnsafe\<close> is the boolean \<^verbatim>\<open>!!checked\<close>.
\<close>

fun fire :: "event \<Rightarrow> wizard \<Rightarrow> wizard" where
  "fire ClickNext w = nextStep w"
| "fire ClickBack w = prevStep w"
| "fire (ChangeRepoUrl v) w = w\<lparr>formData := (formData w)\<lparr>repoUrl := v\<rparr>\<rparr>"
| "fire (ChangeBaseUrl v) w = w\<lparr>formData := (formData w)\<lparr>baseUrl := v\<rparr>\<rparr>"
| "fire (ChangeAuthHeader v) w = w\<lparr>formData := (formData w)\<lparr>authHeader := v\<rparr>\<rparr>"
| "fire (ChangeOllamaModel v) w = w\<lparr>formData := (formData w)\<lparr>ollamaModel := v\<rparr>\<rparr>"
| "fire (ChangeConcurrency v) w =
     w\<lparr>formData := (formData w)\<lparr>concurrency := number_or (parseInt v) (Num 3)\<rparr>\<rparr>"
| "fire (CheckUnsafe checked) w = w\<lparr>formData := (formData w)\<lparr>unsafe := checked\<rparr>\<rparr>"
| "fire ClickStart w = simulateRun w"
| "fire (IntervalTick k) w = intervalTick k w"
| "fire ClickRunAnother w =
     w\<lparr>currentStep := Some Welcome, completedSteps := {}, formData := initialFormData\<rparr>"

definition handle :: "event \<Rightarrow> wizard \<Rightarrow> wizard" where
  "handle e w = (if available w e then fire e w else w)"

text \<open>The wizards a sequence of events goes through, the starting one first.\<close>

fun trace :: "wizard \<Rightarrow> event list \<Rightarrow> wizard list" where
  "trace w [] = [w]"
| "trace w (e # es) = w # trace (handle e w) es"

text \<open>\<^verbatim>\<open>String.prototype.includes\<close>: \<open>sub\<close> occurs in \<open>s\<close> as a contiguous substring.\<close>

fun includes_str :: "string \<Rightarrow> string \<Rightarrow> bool" where
  "includes_str [] sub = (sub = [])"
| "includes_str (c # cs) sub = (take (length sub) (c # cs) = sub \<or> includes_str cs sub)"

subsection \<open>Predicates of the statements\<close>

text \<open>A decimal digit, by its code unit.\<close>

definition isDecimalDigit :: "char \<Rightarrow> bool" where
  "isDecimalDigit c \<longleftrightarrow> 48 \<le> (of_char c :: nat) \<and> (of_char c :: nat) \<le> 57"

text \<open>
  The invariant of the wizard. At most one interval is alive, it was started on the run
  screen, and it is alive exactly while \<^verbatim>\<open>isRunning\<close> holds; from the consent screen on,
  both required fields are filled in.
\<close>

definition timer_ok :: "wizard \<Rightarrow> bool" where
  "timer_ok w \<longleftrightarrow>
     (intervals w = [] \<and> \<not> isRunning w) \<or>
     (length (intervals w) = 1 \<and> snd (hd (intervals w)) = Some Run \<and> isRunning w \<and>
      currentStep w = Some Run)"

definition fields_ok :: "wizard \<Rightarrow> bool" where
  "fields_ok w \<longleftrightarrow>
     (currentStep w \<in> {Some Consent, Some Run, Some Results} \<longrightarrow>
        repoUrl (formData w) \<noteq> [] \<and> baseUrl (formData w) \<noteq> [])"

definition wizard_inv :: "wizard \<Rightarrow> bool" where
  "wizard_inv w \<longleftrightarrow> currentStep w \<noteq> None \<and> timer_ok w \<and> fields_ok w"

section \<open>The discovery-to-execution pipeline\<close>

text \<open>
  The package \<^verbatim>\<open>secagent\<close> that the wizard's command and \<^verbatim>\<open>setup.sh\<close> invoke
  (\<^verbatim>\<open>python3 -m secagent.cli\<close>) is not among the sources. Its normalizer, planner and
  execution engine are modelled here from the specification, sections 3 to 5.
\<close>

subsection \<open>Data model (specification, section 3)\<close>

text \<open>
  Modelled from the spec: the data model of \<^verbatim>\<open>secagent\<close>, which is not among the
  sources. RunContext: "concurrency limit, inter-request delay, timeout, unsafe flag,
  auth header, base URL, chosen AI model name"; the concurrency limit is the size of a
  worker pool, a natural number.
\<close>

record RunContext =
  ctx_concurrency :: nat
  ctx_delay_ms :: nat
  ctx_timeout_ms :: nat
  ctx_unsafe :: bool
  ctx_auth_header :: "string option"
  ctx_base_url :: string
  ctx_model :: string

text \<open>
  Modelled from the spec: EndpointCandidate, "method, path template, source detector,
  confidence, declared auth requirement (if known), raw evidence", with the parameters
  (name and inferred type) that the Normalizer unions across candidates.
\<close>

record EndpointCandidate =
  cand_method :: string
  cand_path :: string
  cand_detector :: string
  cand_confidence :: nat
  cand_auth :: "bool option"
  cand_evidence :: string
  cand_params :: "(string \<times> string) list"

text \<open>
  Modelled from the spec: the canonical Endpoint, "method + normalized path template,
  merged auth requirement, set of parameter names with inferred types, provenance list".
\<close>

record Endpoint =
  ep_method :: string
  ep_path :: string
  ep_auth_required :: bool
  ep_params :: "(string \<times> string) list"
  ep_provenance :: "EndpointCandidate list"

text \<open>
  Modelled from the spec: TestCase, "endpoint reference, vulnerability class, mutation
  description, whether it is mutating, expected-baseline linkage" (the position of the
  baseline TestCase in the plan, if any).
\<close>

datatype vuln_class = BOLA | AuthBypass | JWTManipulation

record TestCase =
  tc_endpoint :: Endpoint
  tc_class :: vuln_class
  tc_mutation :: string
  tc_mutating :: bool
  tc_baseline :: "nat option"

text \<open>
  Modelled from the spec: the classification of a TestResult ("vulnerable /
  not-vulnerable / inconclusive / error", the error with its reason), and the outcomes
  of the engine for a TestCase that made no request: "unsafe-disabled" and "skipped".
\<close>

datatype classification = Vulnerable | NotVulnerable | Inconclusive | Failed string

datatype outcome = Classified classification | UnsafeDisabled | Skipped

subsection \<open>Normalizer (specification, section 4.2)\<close>

text \<open>
  Modelled from the spec: the Normalizer of \<^verbatim>\<open>secagent\<close>, which is not among the sources.
  "Groups candidates by a normalized key: method (uppercased) + path template with path
  parameters replaced by a placeholder token (\<^verbatim>\<open>{param}\<close>), ignoring trailing slashes and
  query strings." The specification does not say how a detector writes a path parameter,
  so the test \<open>is_param\<close> on a path segment is an argument.
\<close>

definition to_upper :: "char \<Rightarrow> char" where
  "to_upper c =
     (let n = (of_char c :: nat) in if 97 \<le> n \<and> n \<le> 122 then char_of (n - 32) else c)"

fun split_on :: "char \<Rightarrow> string \<Rightarrow> string list" where
  "split_on sep [] = [[]]"
| "split_on sep (c # cs) =
     (if c = sep then [] # split_on sep cs
      else (case split_on sep cs of
              [] \<Rightarrow> [[c]]
            | seg # segs \<Rightarrow> (c # seg) # segs))"

fun join_with :: "char \<Rightarrow> string list \<Rightarrow> string" where
  "join_with sep [] = []"
| "join_with sep [seg] = seg"
| "join_with sep (seg # segs) = seg @ sep # join_with sep segs"

definition strip_query :: "string \<Rightarrow> string" where
  "strip_query p = takeWhile (\<lambda>c. c \<noteq> CHR ''?'') p"

definition strip_trailing_slashes :: "string \<Rightarrow> string" where
  "strip_trailing_slashes p = rev (dropWhile (\<lambda>c. c = CHR ''/'') (rev p))"

definition normalize_path :: "(string \<Rightarrow> bool) \<Rightarrow> string \<Rightarrow> string" where
  "normalize_path is_param p =
     strip_trailing_slashes
       (join_with CHR ''/''
          (map (\<lambda>seg. if is_param seg then ''{param}'' else seg)
             (split_on CHR ''/'' (strip_query p))))"

definition normalized_key :: "(string \<Rightarrow> bool) \<Rightarrow> EndpointCandidate \<Rightarrow> string \<times> string" where
  "normalized_key is_param c = (map to_upper (cand_method c), normalize_path is_param (cand_path c))"

text \<open>
  Modelled from the spec: the grouping of the Normalizer. A candidate joins the group of
  its key, or opens a new group behind the existing ones.
\<close>

fun add_to_group ::
  "string \<times> string \<Rightarrow> EndpointCandidate \<Rightarrow> ((string \<times> string) \<times> EndpointCandidate list) list \<Rightarrow>
   ((string \<times> string) \<times> EndpointCandidate list) list" where
  "add_to_group k c [] = [(k, [c])]"
| "add_to_group k c ((k', cs) # groups) =
     (if k' = k then (k', cs @ [c]) # groups else (k', cs) # add_to_group k c groups)"

definition group_candidates ::
  "(string \<Rightarrow> bool) \<Rightarrow> EndpointCandidate list \<Rightarrow> ((string \<times> string) \<times> EndpointCandidate list) list" where
  "group_candidates is_param cands =
     foldl (\<lambda>groups c. add_to_group (normalized_key is_param c) c groups) [] cands"

text \<open>
  Modelled from the spec: the merge within a group. "Auth requirement is the logical OR
  of all candidates claiming an auth requirement"; "parameter sets are unioned across
  candidates; type conflicts resolve to string".
\<close>

fun add_param :: "string \<times> string \<Rightarrow> (string \<times> string) list \<Rightarrow> (string \<times> string) list" where
  "add_param (name, ty) [] = [(name, ty)]"
| "add_param (name, ty) ((name', ty') # ps) =
     (if name' = name then (name', if ty' = ty then ty' else ''string'') # ps
      else (name', ty') # add_param (name, ty) ps)"

definition merge_group :: "(string \<times> string) \<times> EndpointCandidate list \<Rightarrow> Endpoint" where
  "merge_group g =
     (case g of (k, cs) \<Rightarrow>
        \<lparr>ep_method = fst k, ep_path = snd k,
         ep_auth_required = list_ex (\<lambda>c. cand_auth c = Some True) cs,
         ep_params = foldl (\<lambda>ps p. add_param p ps) [] (concat (map cand_params cs)),
         ep_provenance = cs\<rparr>)"

text \<open>
  Modelled from the spec: the Normalizer. "Emits one Endpoint per group, in canonical
  list (method, then path) order."
\<close>

definition normalizer :: "(string \<Rightarrow> bool) \<Rightarrow> EndpointCandidate list \<Rightarrow> Endpoint list" where
  "normalizer is_param cands = map merge_group (sort_key fst (group_candidates is_param cands))"

text \<open>Modelled from the spec: the pair (method, normalized path template) of an Endpoint.\<close>

definition endpoint_key :: "Endpoint \<Rightarrow> string \<times> string" where
  "endpoint_key e = (ep_method e, ep_path e)"

subsection \<open>Test Planner (specification, section 4.3)\<close>

text \<open>
  Modelled from the spec: the Test Planner of \<^verbatim>\<open>secagent\<close>, which is not among the
  sources. The class-specific rules that expand an Endpoint into TestCases are the
  argument \<open>rules\<close>; a rule sets \<open>tc_mutating\<close> for "a mutation explicitly targeting a
  write endpoint". The planner tags a TestCase mutating when its method is "anything
  other than GET/HEAD/OPTIONS" or the rule said so, and "mutating tests are excluded from
  the plan entirely unless RunContext.unsafe is true".
\<close>

definition safe_method :: "string \<Rightarrow> bool" where
  "safe_method m \<longleftrightarrow> m \<in> set [''GET'', ''HEAD'', ''OPTIONS'']"

definition tag_mutating :: "TestCase \<Rightarrow> TestCase" where
  "tag_mutating t =
     t\<lparr>tc_mutating := \<not> safe_method (ep_method (tc_endpoint t)) \<or> tc_mutating t\<rparr>"

definition planner ::
  "(RunContext \<Rightarrow> Endpoint \<Rightarrow> TestCase list) \<Rightarrow> RunContext \<Rightarrow> Endpoint list \<Rightarrow> TestCase list" where
  "planner rules ctx endpoints =
     filter (\<lambda>t. ctx_unsafe ctx \<or> \<not> tc_mutating t)
       (map tag_mutating (concat (map (rules ctx) endpoints)))"

subsection \<open>Execution Engine (specification, sections 4.4 and 5)\<close>

text \<open>
  Modelled from the spec: the Execution Engine of \<^verbatim>\<open>secagent\<close>, which is not among the
  sources. "A bounded worker pool of size concurrency drains a work queue"; a worker
  blocks on "the network call itself", so it is idle or has one request in flight (with
  the number of retries made: a failure is "retried once"). The engine is a state
  machine: \<open>eng_dispatched\<close> logs every request handed to the network layer, in order,
  and \<open>eng_finished\<close> every request that has ended (with a response to classify, or
  with a network failure before its retry).
  The scheduler's choices are the actions, so a run is a list of actions. Waiting (the
  pacing delay, the baseline of a differential TestCase, the timeout) only delays an
  action and is not modelled.
\<close>

datatype worker = Idle | InFlight TestCase nat

record engine =
  eng_queue :: "TestCase list"
  eng_workers :: "worker list"
  eng_dispatched :: "TestCase list"
  eng_finished :: "TestCase list"
  eng_results :: "(TestCase \<times> outcome) list"
  eng_aborted :: bool

datatype action = Take nat | Complete nat classification | Retry nat | Abort

definition engine_init :: "RunContext \<Rightarrow> TestCase list \<Rightarrow> engine" where
  "engine_init ctx plan =
     \<lparr>eng_queue = plan, eng_workers = replicate (ctx_concurrency ctx) Idle,
      eng_dispatched = [], eng_finished = [], eng_results = [], eng_aborted = False\<rparr>"

text \<open>
  Modelled from the spec: one step of the engine. \<open>Take i\<close>: the idle worker \<open>i\<close> takes
  the head of the queue; the safe-mode gate rejects a mutating TestCase "with a
  hard-coded unsafe-disabled outcome unless RunContext.unsafe is true", and any other
  TestCase is dispatched. \<open>Complete i c\<close>: the request of worker \<open>i\<close> ends and is
  classified. \<open>Retry i\<close>: its request ended in a network failure and is issued once
  more. \<open>Abort\<close>: "the engine stops dispatching new work immediately" and marks "any
  undispatched TestCases as skipped".
\<close>

fun engine_step :: "RunContext \<Rightarrow> action \<Rightarrow> engine \<Rightarrow> engine" where
  "engine_step ctx (Take i) s =
     (if i < length (eng_workers s) \<and> eng_workers s ! i = Idle \<and> \<not> eng_aborted s then
        (case eng_queue s of
           [] \<Rightarrow> s
         | t # queue \<Rightarrow>
             if tc_mutating t \<and> \<not> ctx_unsafe ctx
             then s\<lparr>eng_queue := queue, eng_results := eng_results s @ [(t, UnsafeDisabled)]\<rparr>
             else s\<lparr>eng_queue := queue, eng_workers := (eng_workers s)[i := InFlight t 0],
                    eng_dispatched := eng_dispatched s @ [t]\<rparr>)
      else s)"
| "engine_step ctx (Complete i c) s =
     (if i < length (eng_workers s) then
        (case eng_workers s ! i of
           Idle \<Rightarrow> s
         | InFlight t retries \<Rightarrow>
             s\<lparr>eng_workers := (eng_workers s)[i := Idle],
               eng_finished := eng_finished s @ [t],
               eng_results := eng_results s @ [(t, Classified c)]\<rparr>)
      else s)"
| "engine_step ctx (Retry i) s =
     (if i < length (eng_workers s) then
        (case eng_workers s ! i of
           Idle \<Rightarrow> s
         | InFlight t retries \<Rightarrow>
             if retries = 0
             then s\<lparr>eng_workers := (eng_workers s)[i := InFlight t 1],
                    eng_finished := eng_finished s @ [t],
                    eng_dispatched := eng_dispatched s @ [t]\<rparr>
             else s)
      else s)"
| "engine_step ctx Abort s =
     s\<lparr>eng_queue := [], eng_aborted := True,
       eng_results := eng_results s @ map (\<lambda>t. (t, Skipped)) (eng_queue s)\<rparr>"

text \<open>Modelled from the spec: a run of the engine on a plan, under a schedule.\<close>

definition engine_run :: "RunContext \<Rightarrow> TestCase list \<Rightarrow> action list \<Rightarrow> engine" where
  "engine_run ctx plan acts = fold (engine_step ctx) acts (engine_init ctx plan)"

text \<open>
  Modelled from the spec: the number of in-flight requests, those dispatched to the
  network layer that have not ended yet.
\<close>

definition in_flight :: "engine \<Rightarrow> nat" where
  "in_flight s = length (eng_dispatched s) - length (eng_finished s)"

text \<open>
  The invariant of the worker pool: it keeps its size, and every request that was
  dispatched and has not ended is the request of one busy worker.
\<close>

fun busy :: "worker \<Rightarrow> bool" where
  "busy Idle = False"
| "busy (InFlight t retries) = True"

definition pool_inv :: "RunContext \<Rightarrow> engine \<Rightarrow> bool" where
  "pool_inv ctx s \<longleftrightarrow>
     length (eng_workers s) = ctx_concurrency ctx \<and>
     length (eng_dispatched s) = length (eng_finished s) + length (filter busy (eng_workers s))"

text \<open>
  The invariant of the safe-mode gate: no mutating TestCase was dispatched, and none is
  in flight.
\<close>

fun worker_ok :: "worker \<Rightarrow> bool" where
  "worker_ok Idle = True"
| "worker_ok (InFlight t retries) = (\<not> tc_mutating t)"

definition gate_inv :: "engine \<Rightarrow> bool" where
  "gate_inv s \<longleftrightarrow>
     list_all (\<lambda>t. \<not> tc_mutating t) (eng_dispatched s) \<and> list_all worker_ok (eng_workers s)"

section \<open>Example inputs\<close>

text \<open>A session of the wizard that fills in both required fields and reaches the run screen.\<close>

definition demo_session :: "event list" where
  "demo_session =
     [ClickNext, ClickNext, ClickNext, ClickNext,
      ChangeRepoUrl ''https://github.com/username/api-project'',
      ChangeBaseUrl ''https://api.example.com'',
      ClickNext, ClickNext]"

text \<open>A run context in safe mode, an endpoint per method, and a rule with one TestCase per endpoint.\<close>

definition demo_context :: RunContext where
  "demo_context =
     \<lparr>ctx_concurrency = 2, ctx_delay_ms = 200, ctx_timeout_ms = 8000, ctx_unsafe = False,
      ctx_auth_header = None, ctx_base_url = ''https://api.example.com'', ctx_model = ''llama3''\<rparr>"

definition demo_endpoint :: "string \<Rightarrow> Endpoint" where
  "demo_endpoint m =
     \<lparr>ep_method = m, ep_path = ''/users/{param}'', ep_auth_required = True,
      ep_params = [(''id'', ''integer'')], ep_provenance = []\<rparr>"

definition demo_case :: "Endpoint \<Rightarrow> TestCase" where
  "demo_case e =
     \<lparr>tc_endpoint = e, tc_class = AuthBypass, tc_mutation = ''omit Authorization header'',
      tc_mutating = False, tc_baseline = None\<rparr>"

definition demo_rules :: "RunContext \<Rightarrow> Endpoint \<Rightarrow> TestCase list" where
  "demo_rules ctx e = [demo_case e]"

section \<open>Theorems\<close>

subsection \<open>Navigation stays inside the step list\<close>

lemma stepIndex_simps:
  "stepIndex None = - 1"
  "stepIndex (Some Welcome) = 0"
  "stepIndex (Some Prerequisites) = 1"
  "stepIndex (Some Clone) = 2"
  "stepIndex (Some Setup) = 3"
  "stepIndex (Some Configure) = 4"
  "stepIndex (Some Consent) = 5"
  "stepIndex (Some Run) = 6"
  "stepIndex (Some Results) = 7"
  by (simp_all add: stepIndex_def indexOf_def steps_def)

lemma at_index_steps_simps:
  "at_index steps 0 = Some Welcome"
  "at_index steps 1 = Some Prerequisites"
  "at_index steps 2 = Some Clone"
  "at_index steps 3 = Some Setup"
  "at_index steps 4 = Some Configure"
  "at_index steps 5 = Some Consent"
  "at_index steps 6 = Some Run"
  "at_index steps 7 = Some Results"
  by (simp_all add: at_index_def steps_def)

lemma length_steps: "length steps = 8"
  by (simp add: steps_def)

lemma in_steps_iff: "(\<exists>s. c = Some s \<and> s \<in> set steps) \<longleftrightarrow> 0 \<le> stepIndex c \<and> stepIndex c \<le> 7"
proof (cases c)
  case None
  then show ?thesis by (simp add: stepIndex_simps)
next
  case (Some s)
  then show ?thesis by (cases s) (simp_all add: stepIndex_simps steps_def)
qed

lemma nextStep_index:
  "0 \<le> stepIndex (currentStep w) \<Longrightarrow> stepIndex (currentStep w) \<le> 7 \<Longrightarrow>
   stepIndex (currentStep (nextStep w)) = min 7 (stepIndex (currentStep w) + 1)"
proof -
  assume "0 \<le> stepIndex (currentStep w)" "stepIndex (currentStep w) \<le> 7"
  then obtain s where s: "currentStep w = Some s"
    by (cases "currentStep w") (simp_all add: stepIndex_simps)
  show ?thesis
    by (cases s)
      (simp_all add: s nextStep_def nextStepFrom_def completeStep_def stepIndex_simps
        at_index_steps_simps length_steps)
qed

lemma prevStep_index:
  "0 \<le> stepIndex (currentStep w) \<Longrightarrow> stepIndex (currentStep w) \<le> 7 \<Longrightarrow>
   stepIndex (currentStep (prevStep w)) = max 0 (stepIndex (currentStep w) - 1)"
proof -
  assume "0 \<le> stepIndex (currentStep w)" "stepIndex (currentStep w) \<le> 7"
  then obtain s where s: "currentStep w = Some s"
    by (cases "currentStep w") (simp_all add: stepIndex_simps)
  show ?thesis
    by (cases s)
      (simp_all add: s prevStep_def stepIndex_simps at_index_steps_simps)
qed

lemma navigate_range:
  "0 \<le> stepIndex (currentStep w) \<and> stepIndex (currentStep w) \<le> 7 \<Longrightarrow>
   0 \<le> stepIndex (currentStep (navigate n w)) \<and> stepIndex (currentStep (navigate n w)) \<le> 7"
  by (cases n) (simp_all add: nextStep_index prevStep_index)

lemma navigate_all_range:
  "0 \<le> stepIndex (currentStep w) \<and> stepIndex (currentStep w) \<le> 7 \<Longrightarrow>
   0 \<le> stepIndex (currentStep (navigate_all ns w)) \<and>
   stepIndex (currentStep (navigate_all ns w)) \<le> 7"
  unfolding navigate_all_def
proof (induction ns arbitrary: w)
  case Nil
  then show ?case by simp
next
  case (Cons n ns)
  from navigate_range [OF Cons.prems] have "0 \<le> stepIndex (currentStep (navigate n w)) \<and>
    stepIndex (currentStep (navigate n w)) \<le> 7" .
  from Cons.IH [OF this] show ?case by simp
qed

text \<open>
  C8. Whatever sequence of \<^verbatim>\<open>nextStep\<close> and \<^verbatim>\<open>prevStep\<close> calls is applied to a wizard whose
  current step is one of the eight steps (in particular to the initial wizard), the
  current step is again one of the eight steps and its index lies in 0..7: no read of
  \<^verbatim>\<open>steps\<close> is out of range. \<^verbatim>\<open>nextStep\<close> on "results" and \<^verbatim>\<open>prevStep\<close> on "welcome"
  change nothing.
\<close>

theorem C8_step_stays_in_steps:
  "(currentStep w \<in> Some ` set steps \<longrightarrow>
      currentStep (navigate_all ns w) \<in> Some ` set steps \<and>
      0 \<le> stepIndex (currentStep (navigate_all ns w)) \<and>
      stepIndex (currentStep (navigate_all ns w)) \<le> 7) \<and>
   currentStep initialWizard \<in> Some ` set steps \<and>
   (currentStep w = Some Results \<longrightarrow> nextStep w = w) \<and>
   (currentStep w = Some Welcome \<longrightarrow> prevStep w = w)"
proof -
  have iff: "c \<in> Some ` set steps \<longleftrightarrow> 0 \<le> stepIndex c \<and> stepIndex c \<le> 7" for c
    using in_steps_iff [of c] by auto
  have "currentStep w \<in> Some ` set steps \<longrightarrow>
      currentStep (navigate_all ns w) \<in> Some ` set steps \<and>
      0 \<le> stepIndex (currentStep (navigate_all ns w)) \<and>
      stepIndex (currentStep (navigate_all ns w)) \<le> 7"
    using navigate_all_range [of w ns] by (simp add: iff)
  moreover have "currentStep initialWizard \<in> Some ` set steps"
    by (simp add: initialWizard_def steps_def)
  moreover have "currentStep w = Some Results \<longrightarrow> nextStep w = w"
    by (simp add: nextStep_def nextStepFrom_def stepIndex_simps length_steps)
  moreover have "currentStep w = Some Welcome \<longrightarrow> prevStep w = w"
    by (simp add: prevStep_def stepIndex_simps)
  ultimately show ?thesis by blast
qed

theorem C8_step_stays_in_steps_witness:
  "currentStep initialWizard \<in> Some ` set steps \<and>
   currentStep (navigate_all [PrevStep, NextStep, NextStep, PrevStep] initialWizard)
     = Some Prerequisites \<and>
   stepIndex (currentStep (navigate_all [PrevStep, NextStep, NextStep, PrevStep] initialWizard)) = 1 \<and>
   nextStep (initialWizard\<lparr>currentStep := Some Results\<rparr>) = initialWizard\<lparr>currentStep := Some Results\<rparr> \<and>
   prevStep initialWizard = initialWizard"
  using C8_step_stays_in_steps [of initialWizard "[PrevStep, NextStep, NextStep, PrevStep]"]
    C8_step_stays_in_steps [of "initialWizard\<lparr>currentStep := Some Results\<rparr>" "[]"]
  by (simp add: initialWizard_def navigate_all_def nextStep_def nextStepFrom_def prevStep_def
      completeStep_def stepIndex_simps at_index_steps_simps length_steps)


subsection \<open>The concurrency field\<close>

lemma digits_ne: "digits n \<noteq> []"
  by (subst digits.simps) simp

lemma digitValue_char_of: "(k::nat) < 10 \<Longrightarrow> digitValue (char_of (48 + k)) = Some k"
  by (simp add: digitValue_def Let_def)

lemma digits_all: "c \<in> set (digits n) \<Longrightarrow> \<exists>k::nat. k < 10 \<and> c = char_of (48 + k)"
proof (induction n arbitrary: c rule: digits.induct)
  case (1 n)
  show ?case
  proof (cases "n < 10")
    case True
    with "1.prems" show ?thesis by (subst (asm) digits.simps) auto
  next
    case False
    with "1.prems" have "c \<in> set (digits (n div 10)) \<or> c = char_of (48 + n mod 10)"
      by (subst (asm) digits.simps) auto
    then show ?thesis
    proof
      assume "c \<in> set (digits (n div 10))"
      with "1.IH" False show ?thesis by blast
    next
      assume "c = char_of (48 + n mod 10)"
      then show ?thesis by (intro exI [of _ "n mod 10"]) simp
    qed
  qed
qed

lemma mathInt_snoc:
  "mathInt R (Z @ [c]) = mathInt R Z * R + (case digitValue c of Some d \<Rightarrow> d | None \<Rightarrow> 0)"
  by (simp add: mathInt_def)

lemma mathInt_digits: "mathInt 10 (digits n) = n"
proof (induction n rule: digits.induct)
  case (1 n)
  show ?case
  proof (cases "n < 10")
    case True
    then show ?thesis by (subst digits.simps) (simp add: mathInt_def digitValue_char_of)
  next
    case False
    have "mathInt 10 (digits n) = mathInt 10 (digits (n div 10)) * 10 + n mod 10"
      using False by (subst digits.simps) (simp add: mathInt_snoc digitValue_char_of)
    with "1.IH" False show ?thesis by simp
  qed
qed

lemma digits_decimal: "c \<in> set (digits n) \<Longrightarrow> isDecimalDigit c"
  using digits_all [of c n] by (auto simp: isDecimalDigit_def)

lemma radix10_iff: "isRadixDigit 10 c \<longleftrightarrow> isDecimalDigit c"
  by (auto simp: isDecimalDigit_def isRadixDigit_def digitValue_def Let_def)

lemma decimal_not_special:
  assumes "isDecimalDigit c"
  shows "\<not> isWhiteSpace c" "c \<noteq> CHR ''+''" "c \<noteq> CHR ''-''" "c \<noteq> CHR ''x''" "c \<noteq> CHR ''X''"
  using assms by (auto simp: isDecimalDigit_def isWhiteSpace_def)

lemma isDecimalDigit_iff: "isDecimalDigit c \<longleftrightarrow> c \<in> set ''0123456789''"
proof
  assume "isDecimalDigit c"
  then have "48 \<le> (of_char c :: nat) \<and> (of_char c :: nat) \<le> 57"
    by (simp add: isDecimalDigit_def)
  then have "(of_char c :: nat) \<in> of_char ` set ''0123456789''"
    by simp arith
  then obtain d where d: "d \<in> set ''0123456789''" and "(of_char c :: nat) = of_char d"
    by (rule imageE)
  then have "c = d" by (simp only: of_char_eq_iff)
  with d show "c \<in> set ''0123456789''" by (simp only:)
next
  assume "c \<in> set ''0123456789''"
  then show "isDecimalDigit c" by (auto simp: isDecimalDigit_def)
qed

text \<open>The digit run of a decimal numeral, whatever follows it.\<close>

lemma parse_unsigned:
  assumes rest: "rest = [] \<or> (\<not> isDecimalDigit (hd rest) \<and> hd rest \<noteq> CHR ''x'' \<and> hd rest \<noteq> CHR ''X'')"
  shows "take 2 (digits n @ rest) \<noteq> ''0x''" "take 2 (digits n @ rest) \<noteq> ''0X''"
    "takeWhile (isRadixDigit 10) (digits n @ rest) = digits n"
    "digits n @ rest \<noteq> []" "isDecimalDigit (hd (digits n @ rest))"
proof -
  obtain d ds where ds: "digits n = d # ds" using digits_ne [of n] by (cases "digits n") auto
  have d: "isDecimalDigit d" using digits_decimal [of d n] ds by simp
  have second: "c \<noteq> CHR ''x'' \<and> c \<noteq> CHR ''X''" if "take 2 (digits n @ rest) = [d, c]" for c
  proof (cases ds)
    case Nil
    with that ds have "rest \<noteq> []" "hd rest = c" by (cases rest; simp)+
    with rest show ?thesis by auto
  next
    case (Cons e es)
    with that ds have "c = e" by simp
    moreover have "isDecimalDigit e" using digits_decimal [of e n] ds Cons by simp
    ultimately show ?thesis using decimal_not_special(4,5) by blast
  qed
  show "take 2 (digits n @ rest) \<noteq> ''0x''" using second [of "CHR ''x''"] ds by auto
  show "take 2 (digits n @ rest) \<noteq> ''0X''" using second [of "CHR ''X''"] ds by auto
  have "takeWhile (isRadixDigit 10) rest = []"
    using rest by (cases rest) (auto simp: radix10_iff)
  then show "takeWhile (isRadixDigit 10) (digits n @ rest) = digits n"
    by (simp add: takeWhile_append2 radix10_iff digits_decimal)
  show "digits n @ rest \<noteq> []" by (simp add: digits_ne)
  show "isDecimalDigit (hd (digits n @ rest))" using d ds by simp
qed

lemma parse_general:
  assumes ws: "set ws \<subseteq> {CHR 0x09, CHR 0x0A, CHR 0x0B, CHR 0x0C, CHR 0x0D, CHR 0x20, CHR 0xA0}"
    and rest: "rest = [] \<or> hd rest \<notin> set ''0123456789xX''"
  shows "parseInt (ws @ digits n @ rest) = numberValue (int n)"
    and "parseInt (ws @ ''-'' @ digits n @ rest) = numberValue (- int n)"
    and "parseInt (ws @ ''+'' @ digits n @ rest) = numberValue (int n)"
proof -
  have rest': "rest = [] \<or> (\<not> isDecimalDigit (hd rest) \<and> hd rest \<noteq> CHR ''x'' \<and> hd rest \<noteq> CHR ''X'')"
    using rest by (auto simp: isDecimalDigit_iff)
  note u = parse_unsigned [OF rest', of n]
  let ?S = "digits n @ rest"
  have wsP: "\<And>c. c \<in> set ws \<Longrightarrow> isWhiteSpace c"
    using ws by (auto simp: isWhiteSpace_def)
  have nw: "\<not> isWhiteSpace (hd ?S)" "hd ?S \<noteq> CHR ''+''" "hd ?S \<noteq> CHR ''-''"
    using decimal_not_special [OF u(5)] by simp_all
  have nws: "\<not> isWhiteSpace CHR ''-''" "\<not> isWhiteSpace CHR ''+''"
    by (simp_all add: isWhiteSpace_def)
  have dw: "dropWhile isWhiteSpace (ws @ T) = T" if "T \<noteq> []" "\<not> isWhiteSpace (hd T)" for T
    using that wsP by (cases T) (simp_all add: dropWhile_append2)
  have "dropWhile isWhiteSpace (ws @ ?S) = ?S" using dw [of ?S] u(4) nw(1) by simp
  then show "parseInt (ws @ digits n @ rest) = numberValue (int n)"
    using u(1,2,4) nw(2,3)
    by (simp add: parseInt_def Let_def u(3) digits_ne mathInt_digits del: append_assoc)
  have "dropWhile isWhiteSpace (ws @ ''-'' @ ?S) = ''-'' @ ?S" using dw [of "''-'' @ ?S"] nws by simp
  then show "parseInt (ws @ ''-'' @ digits n @ rest) = numberValue (- int n)"
    using u(1,2)
    by (simp add: parseInt_def Let_def u(3) digits_ne mathInt_digits)
  have "dropWhile isWhiteSpace (ws @ ''+'' @ ?S) = ''+'' @ ?S" using dw [of "''+'' @ ?S"] nws by simp
  then show "parseInt (ws @ ''+'' @ digits n @ rest) = numberValue (int n)"
    using u(1,2)
    by (simp add: parseInt_def Let_def u(3) digits_ne mathInt_digits)
qed

lemma parse_nan:
  assumes "u = [] \<or> hd u \<notin> set ([CHR 0x09, CHR 0x0A, CHR 0x0B, CHR 0x0C, CHR 0x0D, CHR 0x20, CHR 0xA0] @ ''+-0123456789'')"
  shows "parseInt u = NaN"
proof (cases u)
  case Nil
  then show ?thesis by (simp add: parseInt_def)
next
  case (Cons c cs)
  with assms have c: "\<not> isWhiteSpace c" "c \<noteq> CHR ''+''" "c \<noteq> CHR ''-''" "\<not> isDecimalDigit c"
    by (auto simp: isWhiteSpace_def isDecimalDigit_iff)
  from c(4) have "c \<noteq> CHR ''0''" by (auto simp: isDecimalDigit_def)
  with c show ?thesis
    by (simp add: Cons parseInt_def Let_def radix10_iff)
qed

lemma numberValue_safe: "\<bar>n\<bar> < 2 ^ 53 \<Longrightarrow> numberValue n = Num n"
  by (auto simp: numberValue_def roundToDouble_def Let_def)

lemma numberToString_safe:
  "\<bar>n\<bar> < 2 ^ 53 \<Longrightarrow>
   numberToString (Num n) = (if n < 0 then ''-'' @ digits (nat (- n)) else digits (nat n))"
  by (auto simp: numberToString_def natToString_def)

lemma parseInt_numberToString:
  assumes "\<bar>n\<bar> < 2 ^ 53"
  shows "parseInt (numberToString (Num n)) = Num n"
proof (cases "n < 0")
  case True
  then show ?thesis
    using parse_general(2) [of "[]" "[]" "nat (- n)"] assms
    by (simp add: numberToString_safe numberValue_safe)
next
  case False
  then show ?thesis
    using parse_general(1) [of "[]" "[]" "nat n"] assms
    by (simp add: numberToString_safe numberValue_safe)
qed

lemma bitLength_upper: "n < 2 ^ bitLength n"
proof (induction n rule: bitLength.induct)
  case (1 n)
  show ?case
  proof (cases "n = 0")
    case True
    then show ?thesis by (subst bitLength.simps) simp
  next
    case False
    with "1.IH" have "n div 2 < 2 ^ bitLength (n div 2)" by simp
    then have "n < 2 * 2 ^ bitLength (n div 2)" by linarith
    with False show ?thesis by (subst bitLength.simps) simp
  qed
qed

lemma bitLength_lower: "0 < n \<Longrightarrow> 2 ^ (bitLength n - 1) \<le> n"
proof (induction n rule: bitLength.induct)
  case (1 n)
  have b: "bitLength n = Suc (bitLength (n div 2))"
    using "1.prems" by (subst bitLength.simps) simp
  show ?case
  proof (cases "n div 2 = 0")
    case True
    then have "bitLength (n div 2) = 0" by (subst bitLength.simps) simp
    with "1.prems" show ?thesis by (simp add: b)
  next
    case False
    then have pos: "0 < n div 2" by simp
    with "1.IH" "1.prems" have ih: "2 ^ (bitLength (n div 2) - 1) \<le> n div 2" by simp
    have "0 < bitLength (n div 2)"
      using False by (subst bitLength.simps) simp
    then have "(2::nat) ^ bitLength (n div 2) = 2 * 2 ^ (bitLength (n div 2) - 1)"
      by (cases "bitLength (n div 2)") simp_all
    with ih have "(2::nat) ^ bitLength (n div 2) \<le> 2 * (n div 2)" by simp
    also have "\<dots> \<le> n" by simp
    finally show ?thesis by (simp add: b)
  qed
qed

lemma roundToDouble_lower:
  assumes "2 ^ 53 \<le> m"
  shows "2 ^ (bitLength m - 1) \<le> roundToDouble m"
proof -
  let ?b = "bitLength m"
  let ?e = "?b - 53"
  have pos: "0 < m" using assms by (simp add: less_le_trans [of 0 "2 ^ 53"])
  have lt: "(2::nat) ^ 53 < 2 ^ ?b" using assms bitLength_upper [of m] by linarith
  have b: "53 < ?b" by (rule power_less_imp_less_exp [OF _ lt]) simp
  from b have "?b - 1 = 52 + ?e" by simp
  then have split: "(2::nat) ^ (?b - 1) = 2 ^ 52 * 2 ^ ?e"
    by (simp only: power_add)
  with bitLength_lower [OF pos] have "2 ^ 52 * 2 ^ ?e \<le> m" by simp
  then have q: "2 ^ 52 \<le> m div 2 ^ ?e"
    by (simp add: less_eq_div_iff_mult_less_eq)
  have "2 ^ 52 * 2 ^ ?e \<le> (m div 2 ^ ?e) * 2 ^ ?e"
    using q by (rule mult_le_mono1)
  also have "\<dots> \<le> roundToDouble m"
    using assms by (simp add: roundToDouble_def Let_def)
  finally show ?thesis by (simp only: split)
qed

lemma roundToDouble_overflow:
  assumes "2 ^ 1024 \<le> m"
  shows "2 ^ 1024 \<le> roundToDouble m"
proof -
  have m53: "(2::nat) ^ 53 \<le> m"
    using assms power_increasing [of 53 1024 "2::nat"] by linarith
  have lt: "(2::nat) ^ 1024 < 2 ^ bitLength m" using assms bitLength_upper [of m] by linarith
  have "1024 < bitLength m" by (rule power_less_imp_less_exp [OF _ lt]) simp
  then have "1024 \<le> bitLength m - 1" by simp
  then have "(2::nat) ^ 1024 \<le> 2 ^ (bitLength m - 1)"
    by (rule power_increasing) simp
  also have "\<dots> \<le> roundToDouble m" using m53 by (rule roundToDouble_lower)
  finally show ?thesis .
qed

lemma numberValue_overflow: "2 ^ 1024 \<le> m \<Longrightarrow> numberValue (int m) = PosInfinity"
  using roundToDouble_overflow [of m] by (simp add: numberValue_def Let_def)

lemma roundToDouble_example: "roundToDouble 9007199254740993 = 9007199254740992"
  by (simp add: roundToDouble_def Let_def bitLength.simps)

lemma parseInt_examples:
  "parseInt [] = NaN"
  "parseInt ''abc'' = NaN"
  "parseInt ''0'' = Num 0"
  "parseInt ''50'' = Num 50"
  "parseInt ''0x1F'' = Num 31"
  "parseInt ''0X1f'' = Num 31"
  "parseInt ''-0x10'' = Num (- 16)"
  by (simp_all add: parseInt_def isWhiteSpace_def isRadixDigit_def digitValue_def mathInt_def
      Let_def numberValue_def roundToDouble_def)

lemma parseInt_rounds: "parseInt ''9007199254740993'' = Num 9007199254740992"
  by (simp add: parseInt_def isWhiteSpace_def isRadixDigit_def digitValue_def mathInt_def
      Let_def numberValue_def roundToDouble_example)

text \<open>
  C10. Typing \<open>v\<close> into the concurrency field stores \<^verbatim>\<open>Number.parseInt(v)\<close> when that is a
  number other than zero and 3 otherwise, and changes nothing else. \<^verbatim>\<open>Number.parseInt\<close>
  skips leading white space, takes an optional sign and the longest run of decimal digits,
  and ignores what follows; its value is the Number value of the integer read. So every
  integer \<open>n\<close> other than zero with \<open>\<bar>n\<bar> < 2 ^ 53\<close> is stored as typed, whatever the
  \<^verbatim>\<open>min\<close> and \<^verbatim>\<open>max\<close> attributes say: "50" stores 50. After the prefix
  \<^verbatim>\<open>0x\<close> or \<^verbatim>\<open>0X\<close> the digits are hexadecimal. Beyond that range the stored
  number is the nearest double ("9007199254740993" stores 9007199254740992), and
  Infinity from \<open>2 ^ 1024\<close> on. The empty string, a string that starts with neither
  white space, a sign nor a digit ("abc"), and "0" store 3.
\<close>

theorem C10_concurrency_input:
  "fire (ChangeConcurrency v) w =
     w\<lparr>formData := (formData w)\<lparr>concurrency :=
        (if parseInt v = NaN \<or> parseInt v = Num 0 then Num 3 else parseInt v)\<rparr>\<rparr> \<and>
   (currentStep w = Some Configure \<longrightarrow> handle (ChangeConcurrency v) w = fire (ChangeConcurrency v) w) \<and>
   (set ws \<subseteq> {CHR 0x09, CHR 0x0A, CHR 0x0B, CHR 0x0C, CHR 0x0D, CHR 0x20, CHR 0xA0} \<and>
    (rest = [] \<or> hd rest \<notin> set ''0123456789xX'') \<longrightarrow>
      parseInt (ws @ digits m @ rest) = numberValue (int m) \<and>
      parseInt (ws @ ''-'' @ digits m @ rest) = numberValue (- int m) \<and>
      parseInt (ws @ ''+'' @ digits m @ rest) = numberValue (int m)) \<and>
   (\<bar>n\<bar> < 2 ^ 53 \<longrightarrow> numberValue n = Num n \<and> parseInt (numberToString (Num n)) = Num n) \<and>
   (\<bar>n\<bar> < 2 ^ 53 \<and> n \<noteq> 0 \<longrightarrow>
      concurrency (formData (fire (ChangeConcurrency (numberToString (Num n))) w)) = Num n) \<and>
   (2 ^ 1024 \<le> b \<longrightarrow>
      numberValue (int b) = PosInfinity \<and>
      concurrency (formData (fire (ChangeConcurrency (digits b)) w)) = PosInfinity) \<and>
   (u = [] \<or> hd u \<notin> set ([CHR 0x09, CHR 0x0A, CHR 0x0B, CHR 0x0C, CHR 0x0D, CHR 0x20, CHR 0xA0] @ ''+-0123456789'') \<longrightarrow>
      parseInt u = NaN \<and> concurrency (formData (fire (ChangeConcurrency u) w)) = Num 3) \<and>
   parseInt ''9007199254740993'' = Num 9007199254740992 \<and>
   parseInt ''0x1F'' = Num 31 \<and>
   parseInt ''0X1f'' = Num 31 \<and>
   parseInt ''-0x10'' = Num (- 16) \<and>
   concurrency (formData (fire (ChangeConcurrency ''50'') w)) = Num 50 \<and>
   concurrency (formData (fire (ChangeConcurrency []) w)) = Num 3 \<and>
   concurrency (formData (fire (ChangeConcurrency ''abc'') w)) = Num 3 \<and>
   concurrency (formData (fire (ChangeConcurrency ''0'') w)) = Num 3"
proof -
  have c1: "fire (ChangeConcurrency v) w =
     w\<lparr>formData := (formData w)\<lparr>concurrency :=
        (if parseInt v = NaN \<or> parseInt v = Num 0 then Num 3 else parseInt v)\<rparr>\<rparr>"
    by (simp add: number_or_def)
  have c2: "currentStep w = Some Configure \<longrightarrow>
      handle (ChangeConcurrency v) w = fire (ChangeConcurrency v) w"
    by (simp add: handle_def)
  have c3: "set ws \<subseteq> {CHR 0x09, CHR 0x0A, CHR 0x0B, CHR 0x0C, CHR 0x0D, CHR 0x20, CHR 0xA0} \<and>
    (rest = [] \<or> hd rest \<notin> set ''0123456789xX'') \<longrightarrow>
      parseInt (ws @ digits m @ rest) = numberValue (int m) \<and>
      parseInt (ws @ ''-'' @ digits m @ rest) = numberValue (- int m) \<and>
      parseInt (ws @ ''+'' @ digits m @ rest) = numberValue (int m)"
    using parse_general [of ws rest m] by blast
  have c4: "\<bar>n\<bar> < 2 ^ 53 \<longrightarrow> numberValue n = Num n \<and> parseInt (numberToString (Num n)) = Num n"
    using numberValue_safe [of n] parseInt_numberToString [of n] by blast
  have c5: "\<bar>n\<bar> < 2 ^ 53 \<and> n \<noteq> 0 \<longrightarrow>
      concurrency (formData (fire (ChangeConcurrency (numberToString (Num n))) w)) = Num n"
    using parseInt_numberToString [of n] by (simp add: number_or_def)
  have c6: "2 ^ 1024 \<le> b \<longrightarrow>
      numberValue (int b) = PosInfinity \<and>
      concurrency (formData (fire (ChangeConcurrency (digits b)) w)) = PosInfinity"
  proof
    assume big: "2 ^ 1024 \<le> b"
    have "parseInt (digits b) = numberValue (int b)"
      using parse_general(1) [of "[]" "[]" b] by simp
    with numberValue_overflow [OF big] show "numberValue (int b) = PosInfinity \<and>
      concurrency (formData (fire (ChangeConcurrency (digits b)) w)) = PosInfinity"
      by (simp add: number_or_def)
  qed
  have c7: "u = [] \<or> hd u \<notin> set ([CHR 0x09, CHR 0x0A, CHR 0x0B, CHR 0x0C, CHR 0x0D, CHR 0x20, CHR 0xA0] @ ''+-0123456789'') \<longrightarrow>
      parseInt u = NaN \<and> concurrency (formData (fire (ChangeConcurrency u) w)) = Num 3"
  proof
    assume "u = [] \<or> hd u \<notin> set ([CHR 0x09, CHR 0x0A, CHR 0x0B, CHR 0x0C, CHR 0x0D, CHR 0x20, CHR 0xA0] @ ''+-0123456789'')"
    then have "parseInt u = NaN" by (rule parse_nan)
    then show "parseInt u = NaN \<and> concurrency (formData (fire (ChangeConcurrency u) w)) = Num 3"
      by (simp add: number_or_def)
  qed
  have c8: "concurrency (formData (fire (ChangeConcurrency ''50'') w)) = Num 50"
    "concurrency (formData (fire (ChangeConcurrency []) w)) = Num 3"
    "concurrency (formData (fire (ChangeConcurrency ''abc'') w)) = Num 3"
    "concurrency (formData (fire (ChangeConcurrency ''0'') w)) = Num 3"
    by (simp_all add: parseInt_examples number_or_def)
  from c1 c2 c3 c4 c5 c6 c7 c8 parseInt_rounds parseInt_examples(5,6,7) show ?thesis
    by (intro conjI)
qed

theorem C10_concurrency_input_witness:
  "currentStep (initialWizard\<lparr>currentStep := Some Configure\<rparr>) = Some Configure \<and>
   concurrency (formData (handle (ChangeConcurrency ''50'')
     (initialWizard\<lparr>currentStep := Some Configure\<rparr>))) = Num 50 \<and>
   parseInt ('' '' @ digits 42 @ ''px'') = Num 42 \<and>
   parseInt ('' '' @ ''-'' @ digits 42 @ ''px'') = Num (- 42) \<and>
   concurrency (formData (fire (ChangeConcurrency (numberToString (Num 50)))
     (initialWizard\<lparr>currentStep := Some Configure\<rparr>))) = Num 50 \<and>
   numberValue (int (2 ^ 1024)) = PosInfinity \<and>
   parseInt ''abc'' = NaN"
proof -
  let ?w = "initialWizard\<lparr>currentStep := Some Configure\<rparr>"
  note C = C10_concurrency_input [where v = "''50''" and w = ?w and ws = "'' ''" and rest = "''px''"
      and m = 42 and n = 50 and b = "2 ^ 1024" and u = "''abc''"]
  have step: "currentStep ?w = Some Configure" by simp
  from C step have h: "handle (ChangeConcurrency ''50'') ?w = fire (ChangeConcurrency ''50'') ?w"
    by (elim conjE) (rule mp)
  from C have f: "concurrency (formData (fire (ChangeConcurrency ''50'') ?w)) = Num 50"
    by (elim conjE)
  have hyp3: "set '' '' \<subseteq> {CHR 0x09, CHR 0x0A, CHR 0x0B, CHR 0x0C, CHR 0x0D, CHR 0x20, CHR 0xA0} \<and>
    (''px'' = [] \<or> hd ''px'' \<notin> set ''0123456789xX'')" by simp
  from C have "set '' '' \<subseteq> {CHR 0x09, CHR 0x0A, CHR 0x0B, CHR 0x0C, CHR 0x0D, CHR 0x20, CHR 0xA0} \<and>
    (''px'' = [] \<or> hd ''px'' \<notin> set ''0123456789xX'') \<longrightarrow>
      parseInt ('' '' @ digits 42 @ ''px'') = numberValue (int 42) \<and>
      parseInt ('' '' @ ''-'' @ digits 42 @ ''px'') = numberValue (- int 42) \<and>
      parseInt ('' '' @ ''+'' @ digits 42 @ ''px'') = numberValue (int 42)"
    by (elim conjE)
  from this hyp3 have p: "parseInt ('' '' @ digits 42 @ ''px'') = numberValue (int 42) \<and>
      parseInt ('' '' @ ''-'' @ digits 42 @ ''px'') = numberValue (- int 42) \<and>
      parseInt ('' '' @ ''+'' @ digits 42 @ ''px'') = numberValue (int 42)"
    by (rule mp)
  have safe: "\<bar>50 :: int\<bar> < 2 ^ 53 \<and> (50 :: int) \<noteq> 0" by simp
  from C have "\<bar>50 :: int\<bar> < 2 ^ 53 \<and> (50 :: int) \<noteq> 0 \<longrightarrow>
      concurrency (formData (fire (ChangeConcurrency (numberToString (Num 50))) ?w)) = Num 50"
    by (elim conjE)
  from this safe have n: "concurrency (formData (fire (ChangeConcurrency (numberToString (Num 50))) ?w)) = Num 50"
    by (rule mp)
  have big: "(2 :: nat) ^ 1024 \<le> 2 ^ 1024" by simp
  from C big have inf: "numberValue (int (2 ^ 1024)) = PosInfinity \<and>
      concurrency (formData (fire (ChangeConcurrency (digits (2 ^ 1024))) ?w)) = PosInfinity"
    by (elim conjE) (rule mp)
  have hyp7: "''abc'' = [] \<or> hd ''abc'' \<notin> set ([CHR 0x09, CHR 0x0A, CHR 0x0B, CHR 0x0C, CHR 0x0D, CHR 0x20, CHR 0xA0] @ ''+-0123456789'')" by simp
  from C hyp7 have nan: "parseInt ''abc'' = NaN \<and>
      concurrency (formData (fire (ChangeConcurrency ''abc'') ?w)) = Num 3"
    by (elim conjE) (rule mp)
  have v42: "numberValue (int 42) = Num 42" "numberValue (- int 42) = Num (- 42)"
    by (simp_all add: numberValue_safe)
  from step h f p n inf nan show ?thesis by (simp only: v42 simp_thms)
qed

subsection \<open>The initial configuration\<close>

text \<open>
  C4 (amended). The wizard's initial configuration is unsafe = false, concurrency = 3,
  delayMs = 200 and the AI model name "llama3.2:latest" (not the "llama3" that the CLI
  documents as its default).
\<close>

theorem C4_initial_configuration:
  "unsafe (formData initialWizard) = False \<and>
   concurrency (formData initialWizard) = Num 3 \<and>
   delayMs (formData initialWizard) = Num 200 \<and>
   ollamaModel (formData initialWizard) = ''llama3.2:latest''"
  by (simp add: initialWizard_def initialFormData_def)

theorem C4_initial_model_counterexample:
  "\<not> (unsafe (formData initialWizard) = False \<and>
      concurrency (formData initialWizard) = Num 3 \<and>
      delayMs (formData initialWizard) = Num 200 \<and>
      ollamaModel (formData initialWizard) = ''llama3'')"
  by (simp add: initialWizard_def initialFormData_def)

subsection \<open>The unsafe flag of the generated command\<close>

lemma includes_str_iff: "includes_str s sub \<longleftrightarrow> (\<exists>p q. s = p @ sub @ q)"
proof (induction s)
  case Nil
  then show ?case by auto
next
  case (Cons c cs)
  show ?case
  proof
    assume "includes_str (c # cs) sub"
    then consider "take (length sub) (c # cs) = sub" | "includes_str cs sub" by auto
    then show "\<exists>p q. c # cs = p @ sub @ q"
    proof cases
      case 1
      then have "c # cs = [] @ sub @ drop (length sub) (c # cs)"
        by (metis append_Nil append_take_drop_id)
      then show ?thesis by blast
    next
      case 2
      then obtain p q where "cs = p @ sub @ q" using Cons.IH by blast
      then have "c # cs = (c # p) @ sub @ q" by simp
      then show ?thesis by blast
    qed
  next
    assume "\<exists>p q. c # cs = p @ sub @ q"
    then obtain p q where pq: "c # cs = p @ sub @ q" by blast
    show "includes_str (c # cs) sub"
    proof (cases p)
      case Nil
      then have "take (length sub) (c # cs) = sub" using pq by simp
      then show ?thesis by simp
    next
      case (Cons d p')
      then have "cs = p' @ sub @ q" using pq by simp
      then have "includes_str cs sub" using Cons.IH by blast
      then show ?thesis by simp
    qed
  qed
qed

lemma includes_str_set: "includes_str s sub \<Longrightarrow> set sub \<subseteq> set s"
  by (auto simp: includes_str_iff)

lemma includes_str_sep:
  assumes "c \<notin> set sub"
  shows "includes_str (xs @ c # ys) sub \<longleftrightarrow> includes_str xs sub \<or> includes_str ys sub"
proof
  assume "includes_str (xs @ c # ys) sub"
  then obtain p q where pq: "xs @ c # ys = p @ sub @ q" by (auto simp: includes_str_iff)
  show "includes_str xs sub \<or> includes_str ys sub"
  proof -
    from pq obtain us where
      "(xs = p @ us \<and> us @ c # ys = sub @ q) \<or> (xs @ us = p \<and> c # ys = us @ sub @ q)"
      unfolding append_eq_append_conv2 by blast
    then show ?thesis
    proof
      assume a: "xs = p @ us \<and> us @ c # ys = sub @ q"
      then obtain vs where
        "(us = sub @ vs \<and> vs @ c # ys = q) \<or> (us @ vs = sub \<and> c # ys = vs @ q)"
        unfolding append_eq_append_conv2 by blast
      then show ?thesis
      proof
        assume "us = sub @ vs \<and> vs @ c # ys = q"
        with a have "xs = p @ sub @ vs" by simp
        then show ?thesis unfolding includes_str_iff by blast
      next
        assume b: "us @ vs = sub \<and> c # ys = vs @ q"
        show ?thesis
        proof (cases vs)
          case Nil
          with a b have "xs = p @ sub @ []" by simp
          then show ?thesis unfolding includes_str_iff by blast
        next
          case (Cons d vs')
          with b have "c \<in> set sub" by auto
          with assms show ?thesis by simp
        qed
      qed
    next
      assume a: "xs @ us = p \<and> c # ys = us @ sub @ q"
      show ?thesis
      proof (cases us)
        case Nil
        show ?thesis
        proof (cases sub)
          case Nil
          have "xs = [] @ sub @ xs" using Nil by simp
          then show ?thesis unfolding includes_str_iff by blast
        next
          case (Cons d sub')
          with a \<open>us = []\<close> have "c \<in> set sub" by auto
          with assms show ?thesis by simp
        qed
      next
        case (Cons d us')
        with a have "ys = us' @ sub @ q" by simp
        then show ?thesis unfolding includes_str_iff by blast
      qed
    qed
  qed
next
  assume "includes_str xs sub \<or> includes_str ys sub"
  then show "includes_str (xs @ c # ys) sub"
  proof
    assume "includes_str xs sub"
    then obtain p q where "xs = p @ sub @ q" by (auto simp: includes_str_iff)
    then have "xs @ c # ys = p @ sub @ (q @ c # ys)" by simp
    then show ?thesis unfolding includes_str_iff by blast
  next
    assume "includes_str ys sub"
    then obtain p q where "ys = p @ sub @ q" by (auto simp: includes_str_iff)
    then have "xs @ c # ys = (xs @ c # p) @ sub @ q" by simp
    then show ?thesis unfolding includes_str_iff by blast
  qed
qed

lemma natToString_chars:
  "c \<in> set (natToString m) \<Longrightarrow> isDecimalDigit c \<or> c \<in> {CHR ''.'', CHR ''e'', CHR ''+''}"
proof (cases "m < 2 ^ 53")
  case True
  assume "c \<in> set (natToString m)"
  with True show ?thesis by (simp add: natToString_def digits_decimal)
next
  case False
  assume c: "c \<in> set (natToString m)"
  obtain s n where sn: "shortest (roundToDouble m) = (s, n)" by (cases "shortest (roundToDouble m)")
  have zero: "isDecimalDigit CHR ''0''" by (simp add: isDecimalDigit_def)
  from c False sn consider "c \<in> set (digits s)" | "c = CHR ''0''" | "c \<in> set (digits (n - 1))"
    | "c \<in> set (take 1 (digits s))" | "c \<in> set (drop 1 (digits s))"
    | "c \<in> {CHR ''.'', CHR ''e'', CHR ''+''}"
    by (auto simp: natToString_def Let_def split: if_splits)
  then show ?thesis
  proof cases
    case 4
    then have "c \<in> set (digits s)" by (rule in_set_takeD)
    then show ?thesis by (simp add: digits_decimal)
  next
    case 5
    then have "c \<in> set (digits s)" by (rule in_set_dropD)
    then show ?thesis by (simp add: digits_decimal)
  qed (simp_all add: digits_decimal zero)
qed

lemma not_includes_number: "\<not> includes_str (numberToString x) ''--unsafe''"
proof
  assume "includes_str (numberToString x) ''--unsafe''"
  then have u: "CHR ''u'' \<in> set (numberToString x)"
    using includes_str_set by fastforce
  have nd: "\<not> isDecimalDigit CHR ''u''" by (simp add: isDecimalDigit_def)
  show False
  proof (cases x)
    case NaN
    with u show ?thesis by (simp add: numberToString_def)
  next
    case (Num i)
    with u have "CHR ''u'' \<in> set (natToString (nat (- i))) \<or> CHR ''u'' \<in> set (natToString (nat i))"
      by (auto simp: numberToString_def split: if_splits)
    then show ?thesis using natToString_chars [of "CHR ''u''"] nd by auto
  next
    case PosInfinity
    with u show ?thesis by (simp add: numberToString_def)
  next
    case NegInfinity
    with u show ?thesis by (simp add: numberToString_def)
  qed
qed

lemma generateCommand_includes:
  assumes "\<not> includes_str (repoUrl fd) ''--unsafe''" "\<not> includes_str (baseUrl fd) ''--unsafe''"
    "\<not> includes_str (ollamaModel fd) ''--unsafe''" "\<not> includes_str (authHeader fd) ''--unsafe''"
  shows "includes_str (generateCommand fd) ''--unsafe'' \<longleftrightarrow> unsafe fd"
  using assms
  by (simp add: generateCommand_def quoted_def Let_def includes_str_sep not_includes_number)

lemma suffix_generateCommand: "suffix '' --unsafe'' (generateCommand fd) \<longleftrightarrow> unsafe fd"
  by (simp add: generateCommand_def quoted_def Let_def suffix_append suffix_Cons)

text \<open>
  C3 (amended). For every form state, the generated command ends with the flag
  \<^verbatim>\<open> --unsafe\<close> if and only if the unsafe option is true. For every form state whose text
  fields (repository URL, base URL, model name, auth header) do not themselves contain
  \<^verbatim>\<open>--unsafe\<close>, the command contains \<^verbatim>\<open>--unsafe\<close> if and only if the unsafe option is
  true. (The text fields are copied into the command as they are.)
\<close>

theorem C3_unsafe_flag:
  "(suffix '' --unsafe'' (generateCommand fd) \<longleftrightarrow> unsafe fd) \<and>
   (\<not> includes_str (repoUrl fd) ''--unsafe'' \<and> \<not> includes_str (baseUrl fd) ''--unsafe'' \<and>
    \<not> includes_str (ollamaModel fd) ''--unsafe'' \<and> \<not> includes_str (authHeader fd) ''--unsafe''
    \<longrightarrow> (includes_str (generateCommand fd) ''--unsafe'' \<longleftrightarrow> unsafe fd))"
  using suffix_generateCommand [of fd] generateCommand_includes [of fd] by blast

theorem C3_unsafe_flag_witness:
  "\<not> includes_str (repoUrl initialFormData) ''--unsafe'' \<and>
   \<not> includes_str (baseUrl initialFormData) ''--unsafe'' \<and>
   \<not> includes_str (ollamaModel initialFormData) ''--unsafe'' \<and>
   \<not> includes_str (authHeader initialFormData) ''--unsafe'' \<and>
   \<not> unsafe initialFormData \<and>
   \<not> includes_str (generateCommand initialFormData) ''--unsafe'' \<and>
   includes_str (generateCommand (initialFormData\<lparr>unsafe := True\<rparr>)) ''--unsafe''"
  using C3_unsafe_flag [of initialFormData] C3_unsafe_flag [of "initialFormData\<lparr>unsafe := True\<rparr>"]
  by (simp add: initialFormData_def)

text \<open>
  C3 as stated fails: with the repository URL \<^verbatim>\<open>x" --unsafe "\<close> and the unsafe
  option off, the command reads \<^verbatim>\<open>--repo "x" --unsafe "" --base-url ...\<close>.
\<close>

theorem C3_unsafe_flag_counterexample:
  "\<not> (includes_str
        (generateCommand (initialFormData\<lparr>repoUrl := ''x'' @ quoted '' --unsafe ''\<rparr>)) ''--unsafe''
      \<longleftrightarrow> unsafe (initialFormData\<lparr>repoUrl := ''x'' @ quoted '' --unsafe ''\<rparr>))"
  by (simp add: generateCommand_def quoted_def Let_def initialFormData_def numberToString_def
      natToString_def digits.simps)

subsection \<open>Reachable wizards\<close>

lemma nextStep_simps:
  "currentStep w = Some Welcome \<Longrightarrow> nextStep w = w\<lparr>completedSteps := insert (Some Welcome) (completedSteps w), currentStep := Some Prerequisites\<rparr>"
  "currentStep w = Some Prerequisites \<Longrightarrow> nextStep w = w\<lparr>completedSteps := insert (Some Prerequisites) (completedSteps w), currentStep := Some Clone\<rparr>"
  "currentStep w = Some Clone \<Longrightarrow> nextStep w = w\<lparr>completedSteps := insert (Some Clone) (completedSteps w), currentStep := Some Setup\<rparr>"
  "currentStep w = Some Setup \<Longrightarrow> nextStep w = w\<lparr>completedSteps := insert (Some Setup) (completedSteps w), currentStep := Some Configure\<rparr>"
  "currentStep w = Some Configure \<Longrightarrow> nextStep w = w\<lparr>completedSteps := insert (Some Configure) (completedSteps w), currentStep := Some Consent\<rparr>"
  "currentStep w = Some Consent \<Longrightarrow> nextStep w = w\<lparr>completedSteps := insert (Some Consent) (completedSteps w), currentStep := Some Run\<rparr>"
  "currentStep w = Some Run \<Longrightarrow> nextStep w = w\<lparr>completedSteps := insert (Some Run) (completedSteps w), currentStep := Some Results\<rparr>"
  "currentStep w = Some Results \<Longrightarrow> nextStep w = w"
  by (simp_all add: nextStep_def nextStepFrom_def completeStep_def stepIndex_simps
      at_index_steps_simps length_steps)

lemma prevStep_simps:
  "currentStep w = Some Welcome \<Longrightarrow> prevStep w = w"
  "currentStep w = Some Prerequisites \<Longrightarrow> prevStep w = w\<lparr>currentStep := Some Welcome\<rparr>"
  "currentStep w = Some Clone \<Longrightarrow> prevStep w = w\<lparr>currentStep := Some Prerequisites\<rparr>"
  "currentStep w = Some Setup \<Longrightarrow> prevStep w = w\<lparr>currentStep := Some Clone\<rparr>"
  "currentStep w = Some Configure \<Longrightarrow> prevStep w = w\<lparr>currentStep := Some Setup\<rparr>"
  "currentStep w = Some Consent \<Longrightarrow> prevStep w = w\<lparr>currentStep := Some Configure\<rparr>"
  "currentStep w = Some Run \<Longrightarrow> prevStep w = w\<lparr>currentStep := Some Consent\<rparr>"
  "currentStep w = Some Results \<Longrightarrow> prevStep w = w\<lparr>currentStep := Some Run\<rparr>"
  by (simp_all add: prevStep_def stepIndex_simps at_index_steps_simps)

lemma inv_ClickNext: "wizard_inv w \<Longrightarrow> wizard_inv (handle ClickNext w)"
proof -
  assume inv: "wizard_inv w"
  then obtain s where s: "currentStep w = Some s" by (auto simp: wizard_inv_def)
  show ?thesis
    using inv
    by (cases s)
      (simp_all add: s handle_def nextStep_simps wizard_inv_def timer_ok_def fields_ok_def
        continueDisabled_def)
qed

lemma inv_ClickBack: "wizard_inv w \<Longrightarrow> wizard_inv (handle ClickBack w)"
proof -
  assume inv: "wizard_inv w"
  then obtain s where s: "currentStep w = Some s" by (auto simp: wizard_inv_def)
  show ?thesis
    using inv
    by (cases s)
      (auto simp: s handle_def prevStep_simps wizard_inv_def timer_ok_def fields_ok_def)
qed

lemma inv_form:
  assumes "wizard_inv w" "currentStep w = Some Configure"
  shows "wizard_inv (w\<lparr>formData := fd\<rparr>)"
  using assms by (simp add: wizard_inv_def timer_ok_def fields_ok_def)

lemma inv_ClickStart: "wizard_inv w \<Longrightarrow> wizard_inv (handle ClickStart w)"
  by (auto simp: handle_def wizard_inv_def timer_ok_def fields_ok_def simulateRun_def)

lemma inv_ClickRunAnother: "wizard_inv w \<Longrightarrow> wizard_inv (handle ClickRunAnother w)"
  by (auto simp: handle_def wizard_inv_def timer_ok_def fields_ok_def)

lemma nextStepFrom_Run:
  "nextStepFrom (Some Run) w = w\<lparr>completedSteps := insert (Some Run) (completedSteps w), currentStep := Some Results\<rparr>"
  by (simp add: nextStepFrom_def completeStep_def stepIndex_simps at_index_steps_simps length_steps)

lemma inv_IntervalTick: "wizard_inv w \<Longrightarrow> wizard_inv (handle (IntervalTick k) w)"
proof -
  assume inv: "wizard_inv w"
  show ?thesis
  proof (cases "k < length (intervals w)")
    case False
    with inv show ?thesis by (simp add: handle_def)
  next
    case True
    with inv obtain p where p: "intervals w = [(p, Some Run)]" and k: "k = 0"
      and r: "isRunning w" "currentStep w = Some Run"
      by (cases "intervals w") (auto simp: wizard_inv_def timer_ok_def)
    show ?thesis
      using inv by (simp add: handle_def intervalTick_def p k r nextStepFrom_Run wizard_inv_def timer_ok_def fields_ok_def)
  qed
qed

lemma inv_handle:
  assumes "wizard_inv w"
  shows "wizard_inv (handle e w)"
proof (cases e)
  case ClickNext then show ?thesis using assms by (simp add: inv_ClickNext)
next
  case ClickBack then show ?thesis using assms by (simp add: inv_ClickBack)
next
  case ClickStart then show ?thesis using assms by (simp add: inv_ClickStart)
next
  case ClickRunAnother then show ?thesis using assms by (simp add: inv_ClickRunAnother)
next
  case (IntervalTick k) then show ?thesis using assms by (simp add: inv_IntervalTick)
qed (simp_all add: handle_def inv_form assms)

lemma inv_initial: "wizard_inv initialWizard"
  by (simp add: wizard_inv_def timer_ok_def fields_ok_def initialWizard_def)

lemma step_up:
  assumes "wizard_inv w"
  shows "stepIndex (currentStep (handle e w)) \<le> stepIndex (currentStep w) + 1"
proof -
  from assms obtain s where s: "currentStep w = Some s" by (auto simp: wizard_inv_def)
  show ?thesis
  proof (cases e)
    case ClickNext
    then show ?thesis by (cases s) (simp_all add: s handle_def nextStep_simps stepIndex_simps)
  next
    case ClickBack
    then show ?thesis by (cases s) (simp_all add: s handle_def prevStep_simps stepIndex_simps)
  next
    case ClickStart
    then show ?thesis by (simp add: handle_def simulateRun_def)
  next
    case ClickRunAnother
    then show ?thesis by (simp add: handle_def s stepIndex_simps)
  next
    case (IntervalTick k)
    show ?thesis
    proof (cases "k < length (intervals w)")
      case False
      then show ?thesis by (simp add: handle_def IntervalTick)
    next
      case True
      with assms obtain p where p: "intervals w = [(p, Some Run)]" and k: "k = 0"
        and r: "isRunning w" "currentStep w = Some Run"
        by (cases "intervals w") (auto simp: wizard_inv_def timer_ok_def)
      show ?thesis
        by (simp add: IntervalTick handle_def intervalTick_def p k r nextStepFrom_Run stepIndex_simps)
    qed
  qed (simp_all add: handle_def)
qed

lemma trace_length: "length (trace w es) = Suc (length es)"
  by (induction es arbitrary: w) simp_all

lemma inv_trace: "wizard_inv w \<Longrightarrow> w' \<in> set (trace w es) \<Longrightarrow> wizard_inv w'"
proof (induction es arbitrary: w)
  case Nil
  then show ?case by simp
next
  case (Cons e es)
  from Cons.prems(2) consider "w' = w" | "w' \<in> set (trace (handle e w) es)" by auto
  then show ?case
  proof cases
    case 1
    with Cons.prems(1) show ?thesis by simp
  next
    case 2
    with Cons.IH [OF inv_handle [OF Cons.prems(1)]] show ?thesis by simp
  qed
qed

lemma run_after_consent_gen:
  "wizard_inv w \<Longrightarrow> k < length (trace w es) \<Longrightarrow> currentStep (trace w es ! k) = Some Run \<Longrightarrow>
   6 \<le> stepIndex (currentStep w) \<or> (\<exists>j<k. currentStep (trace w es ! j) = Some Consent)"
proof (induction es arbitrary: w k)
  case Nil
  then show ?case by (simp add: stepIndex_simps)
next
  case (Cons e es)
  show ?case
  proof (cases k)
    case 0
    with Cons.prems show ?thesis by (simp add: stepIndex_simps)
  next
    case (Suc k')
    have inv': "wizard_inv (handle e w)" using Cons.prems(1) by (rule inv_handle)
    have "k' < length (trace (handle e w) es)" using Cons.prems(2) Suc by simp
    moreover have "currentStep (trace (handle e w) es ! k') = Some Run"
      using Cons.prems(3) Suc by simp
    ultimately consider "6 \<le> stepIndex (currentStep (handle e w))"
      | j where "j < k'" "currentStep (trace (handle e w) es ! j) = Some Consent"
      using Cons.IH [OF inv'] by blast
    then show ?thesis
    proof cases
      case 1
      with step_up [OF Cons.prems(1), of e] have five: "5 \<le> stepIndex (currentStep w)" by simp
      show ?thesis
      proof (cases "6 \<le> stepIndex (currentStep w)")
        case True then show ?thesis by simp
      next
        case False
        with five have "stepIndex (currentStep w) = 5" by simp
        moreover from Cons.prems(1) obtain s where s: "currentStep w = Some s"
          by (auto simp: wizard_inv_def)
        ultimately have "currentStep w = Some Consent"
          by (cases s) (simp_all add: stepIndex_simps)
        then have "currentStep (trace w (e # es) ! 0) = Some Consent" by simp
        then show ?thesis using Suc by blast
      qed
    next
      case 2
      then have "Suc j < k" "currentStep (trace w (e # es) ! Suc j) = Some Consent"
        using Suc by simp_all
      then show ?thesis by blast
    qed
  qed
qed

lemma transitions:
  assumes "wizard_inv w"
  shows "currentStep (handle e w) \<in>
     {currentStep w, at_index steps (stepIndex (currentStep w) + 1),
      at_index steps (stepIndex (currentStep w) - 1), Some Welcome}"
proof -
  from assms obtain s where s: "currentStep w = Some s" by (auto simp: wizard_inv_def)
  show ?thesis
  proof (cases e)
    case ClickNext
    then show ?thesis
      by (cases s) (simp_all add: s handle_def nextStep_simps stepIndex_simps at_index_steps_simps)
  next
    case ClickBack
    then show ?thesis
      by (cases s) (simp_all add: s handle_def prevStep_simps stepIndex_simps at_index_steps_simps)
  next
    case ClickStart
    then show ?thesis by (simp add: handle_def simulateRun_def)
  next
    case ClickRunAnother
    then show ?thesis by (simp add: handle_def s stepIndex_simps)
  next
    case (IntervalTick k)
    show ?thesis
    proof (cases "k < length (intervals w)")
      case False
      then show ?thesis by (simp add: handle_def IntervalTick)
    next
      case True
      with assms obtain p where p: "intervals w = [(p, Some Run)]" and k: "k = 0"
        and r: "isRunning w" "currentStep w = Some Run"
        by (cases "intervals w") (auto simp: wizard_inv_def timer_ok_def)
      show ?thesis
        by (simp add: IntervalTick handle_def intervalTick_def p k r nextStepFrom_Run
            stepIndex_simps at_index_steps_simps)
    qed
  qed (simp_all add: handle_def)
qed

lemma demo_session_steps:
  "map currentStep (trace initialWizard demo_session) =
     [Some Welcome, Some Prerequisites, Some Clone, Some Setup, Some Configure,
      Some Configure, Some Configure, Some Consent, Some Run]"
  by (simp add: demo_session_def initialWizard_def handle_def nextStep_def nextStepFrom_def
      completeStep_def stepIndex_simps at_index_steps_simps length_steps continueDisabled_def)

lemma demo_session_last:
  "formData (last (trace initialWizard demo_session)) =
     initialFormData\<lparr>repoUrl := ''https://github.com/username/api-project'',
       baseUrl := ''https://api.example.com''\<rparr>"
  by (simp add: demo_session_def initialWizard_def handle_def nextStep_def nextStepFrom_def
      completeStep_def stepIndex_simps at_index_steps_simps length_steps continueDisabled_def)

text \<open>
  C5. On the configure step with an empty repository URL or an empty API base URL the
  Continue button is disabled, and clicking it changes nothing. In every wizard that a
  sequence of events reaches from the initial one, the current step is past the configure
  step (consent, run or results) only with both fields filled in; the command is
  generated in the render of the run step only, so it is never generated with one of
  them empty.
\<close>

theorem C5_required_fields:
  "(currentStep w = Some Configure \<and> (repoUrl (formData w) = [] \<or> baseUrl (formData w) = []) \<longrightarrow>
      \<not> available w ClickNext \<and> handle ClickNext w = w) \<and>
   (\<forall>w' \<in> set (trace initialWizard es).
      currentStep w' \<in> {Some Consent, Some Run, Some Results} \<longrightarrow>
      repoUrl (formData w') \<noteq> [] \<and> baseUrl (formData w') \<noteq> [])"
proof (intro conjI ballI)
  show "currentStep w = Some Configure \<and> (repoUrl (formData w) = [] \<or> baseUrl (formData w) = []) \<longrightarrow>
      \<not> available w ClickNext \<and> handle ClickNext w = w"
    by (auto simp: handle_def continueDisabled_def)
next
  fix w' assume "w' \<in> set (trace initialWizard es)"
  then have "wizard_inv w'" using inv_initial inv_trace by blast
  then show "currentStep w' \<in> {Some Consent, Some Run, Some Results} \<longrightarrow>
      repoUrl (formData w') \<noteq> [] \<and> baseUrl (formData w') \<noteq> []"
    by (simp add: wizard_inv_def fields_ok_def)
qed

theorem C5_required_fields_witness:
  "currentStep (initialWizard\<lparr>currentStep := Some Configure\<rparr>) = Some Configure \<and>
   repoUrl (formData (initialWizard\<lparr>currentStep := Some Configure\<rparr>)) = [] \<and>
   handle ClickNext (initialWizard\<lparr>currentStep := Some Configure\<rparr>)
     = initialWizard\<lparr>currentStep := Some Configure\<rparr> \<and>
   last (trace initialWizard demo_session) \<in> set (trace initialWizard demo_session) \<and>
   currentStep (last (trace initialWizard demo_session)) = Some Run \<and>
   repoUrl (formData (last (trace initialWizard demo_session))) \<noteq> [] \<and>
   baseUrl (formData (last (trace initialWizard demo_session))) \<noteq> []"
proof -
  have mem: "last (trace initialWizard demo_session) \<in> set (trace initialWizard demo_session)"
    by (rule last_in_set) (simp add: demo_session_def)
  have "map currentStep (trace initialWizard demo_session) \<noteq> []" by (simp add: demo_session_def)
  then have "currentStep (last (trace initialWizard demo_session))
      = last (map currentStep (trace initialWizard demo_session))"
    by (simp add: last_map)
  then have cur: "currentStep (last (trace initialWizard demo_session)) = Some Run"
    by (simp add: demo_session_steps)
  show ?thesis
    using C5_required_fields [of "initialWizard\<lparr>currentStep := Some Configure\<rparr>" demo_session]
      mem cur
    by (auto simp: initialWizard_def initialFormData_def)
qed

text \<open>
  C9. In every sequence of wizards that events produce from the initial wizard, a wizard
  on the run step is preceded by a wizard on the consent step. From a wizard of such a
  sequence, an event leaves the current step as it is, moves it to the next step of
  \<^verbatim>\<open>steps\<close>, moves it to the previous one, or resets it to "welcome"; "consent" is the
  step before "run".
\<close>

theorem C9_run_after_consent:
  "(k < length (trace initialWizard es) \<and> currentStep (trace initialWizard es ! k) = Some Run \<longrightarrow>
      (\<exists>j<k. currentStep (trace initialWizard es ! j) = Some Consent)) \<and>
   (\<forall>w \<in> set (trace initialWizard es).
      currentStep (handle e w) \<in>
        {currentStep w, at_index steps (stepIndex (currentStep w) + 1),
         at_index steps (stepIndex (currentStep w) - 1), Some Welcome}) \<and>
   at_index steps (stepIndex (Some Run) - 1) = Some Consent"
proof (intro conjI ballI impI)
  assume "k < length (trace initialWizard es) \<and> currentStep (trace initialWizard es ! k) = Some Run"
  then have "6 \<le> stepIndex (currentStep initialWizard) \<or>
      (\<exists>j<k. currentStep (trace initialWizard es ! j) = Some Consent)"
    using run_after_consent_gen [OF inv_initial, of k es] by blast
  then show "\<exists>j<k. currentStep (trace initialWizard es ! j) = Some Consent"
    by (simp add: initialWizard_def stepIndex_simps)
next
  fix w assume "w \<in> set (trace initialWizard es)"
  then have "wizard_inv w" using inv_initial inv_trace by blast
  then show "currentStep (handle e w) \<in>
        {currentStep w, at_index steps (stepIndex (currentStep w) + 1),
         at_index steps (stepIndex (currentStep w) - 1), Some Welcome}"
    by (rule transitions)
next
  show "at_index steps (stepIndex (Some Run) - 1) = Some Consent"
    by (simp add: stepIndex_simps at_index_steps_simps)
qed

theorem C9_run_after_consent_witness:
  "8 < length (trace initialWizard demo_session) \<and>
   currentStep (trace initialWizard demo_session ! 8) = Some Run \<and>
   (\<exists>j<8. currentStep (trace initialWizard demo_session ! j) = Some Consent) \<and>
   trace initialWizard demo_session ! 7 \<in> set (trace initialWizard demo_session) \<and>
   currentStep (handle ClickNext (trace initialWizard demo_session ! 7)) = Some Run"
proof -
  have len: "length (trace initialWizard demo_session) = 9"
    by (simp add: trace_length demo_session_def)
  have nth: "currentStep (trace initialWizard demo_session ! i)
      = map currentStep (trace initialWizard demo_session) ! i" if "i < 9" for i
    using that len by simp
  have run: "currentStep (trace initialWizard demo_session ! 8) = Some Run"
    by (simp add: nth demo_session_steps)
  have mem: "trace initialWizard demo_session ! 7 \<in> set (trace initialWizard demo_session)"
    using len by simp
  have "currentStep (trace initialWizard demo_session ! 7) = Some Consent"
    by (simp add: nth demo_session_steps)
  then have nxt: "currentStep (handle ClickNext (trace initialWizard demo_session ! 7)) = Some Run"
    by (simp add: handle_def nextStep_simps)
  show ?thesis
    using C9_run_after_consent [of 8 demo_session ClickNext] len run mem nxt by simp
qed

subsection \<open>The Normalizer emits each key once\<close>

lemma add_to_group_keys: "set (map fst (add_to_group k c groups)) = insert k (set (map fst groups))"
  by (induction k c groups rule: add_to_group.induct) auto

lemma add_to_group_distinct:
  "distinct (map fst groups) \<Longrightarrow> distinct (map fst (add_to_group k c groups))"
proof (induction k c groups rule: add_to_group.induct)
  case (1 k c)
  then show ?case by simp
next
  case (2 k c k' cs groups)
  have "fst ` set (add_to_group k c groups) = insert k (fst ` set groups)"
    using add_to_group_keys [of k c groups] by simp
  with 2 show ?case by auto
qed

lemma foldl_groups:
  "distinct (map fst acc) \<Longrightarrow>
   distinct (map fst (foldl (\<lambda>groups c. add_to_group (f c) c groups) acc cands)) \<and>
   set (map fst (foldl (\<lambda>groups c. add_to_group (f c) c groups) acc cands)) =
     set (map fst acc) \<union> f ` set cands"
proof (induction cands arbitrary: acc)
  case Nil
  then show ?case by simp
next
  case (Cons c cands)
  have d: "distinct (map fst (add_to_group (f c) c acc))"
    using Cons.prems by (rule add_to_group_distinct)
  show ?case
    using Cons.IH [OF d] add_to_group_keys [of "f c" c acc] by auto
qed

lemma group_candidates_keys:
  "distinct (map fst (group_candidates is_param cands))"
  "set (map fst (group_candidates is_param cands)) = normalized_key is_param ` set cands"
  using foldl_groups [of "[]" "normalized_key is_param" cands]
  by (simp_all add: group_candidates_def)

lemma endpoint_key_merge_group: "endpoint_key (merge_group g) = fst g"
  by (cases g) (simp add: endpoint_key_def merge_group_def)

lemma normalizer_keys:
  "map endpoint_key (normalizer is_param cands)
     = map fst (sort_key fst (group_candidates is_param cands))"
  by (simp add: normalizer_def endpoint_key_merge_group comp_def)

text \<open>
  C2. The (method, normalized path template) pairs of the Endpoints that the Normalizer
  emits are pairwise distinct. They are in ascending (method, then path) order, and they
  are exactly the normalized keys of the candidates.
\<close>

theorem C2_endpoint_keys_distinct:
  "distinct (map endpoint_key (normalizer is_param cands)) \<and>
   sorted (map endpoint_key (normalizer is_param cands)) \<and>
   set (map endpoint_key (normalizer is_param cands)) = normalized_key is_param ` set cands"
proof -
  let ?gs = "group_candidates is_param cands"
  have "distinct (map fst ?gs)" by (rule group_candidates_keys)
  then have "distinct (map fst (sort_key fst ?gs))"
    by (simp add: distinct_map)
  moreover have "sorted (map fst (sort_key fst ?gs))" by simp
  moreover have "set (map fst (sort_key fst ?gs)) = normalized_key is_param ` set cands"
    using group_candidates_keys(2) [of is_param cands] by simp
  ultimately show ?thesis by (simp only: normalizer_keys)
qed

subsection \<open>The worker pool bounds the requests in flight\<close>

lemma busy_fill:
  "i < length ws \<Longrightarrow> ws ! i = Idle \<Longrightarrow>
   length (filter busy (ws[i := InFlight t r])) = Suc (length (filter busy ws))"
proof (induction ws arbitrary: i)
  case Nil
  then show ?case by simp
next
  case (Cons w ws)
  then show ?case by (cases i) simp_all
qed

lemma busy_free:
  "i < length ws \<Longrightarrow> ws ! i = InFlight t r \<Longrightarrow>
   Suc (length (filter busy (ws[i := Idle]))) = length (filter busy ws)"
proof (induction ws arbitrary: i)
  case Nil
  then show ?case by simp
next
  case (Cons w ws)
  then show ?case by (cases i) simp_all
qed

lemma busy_keep:
  "i < length ws \<Longrightarrow> ws ! i = InFlight t r \<Longrightarrow>
   length (filter busy (ws[i := InFlight t' r'])) = length (filter busy ws)"
proof (induction ws arbitrary: i)
  case Nil
  then show ?case by simp
next
  case (Cons w ws)
  then show ?case by (cases i) simp_all
qed

lemma pool_inv_step:
  assumes inv: "pool_inv ctx s"
  shows "pool_inv ctx (engine_step ctx a s)"
proof (cases a)
  case (Take i)
  show ?thesis
  proof (cases "i < length (eng_workers s) \<and> eng_workers s ! i = Idle \<and> \<not> eng_aborted s")
    case False
    with inv Take show ?thesis by auto
  next
    case True
    show ?thesis
    proof (cases "eng_queue s")
      case Nil
      with inv Take show ?thesis by simp
    next
      case (Cons t queue)
      with inv Take True show ?thesis
        by (simp add: pool_inv_def busy_fill)
    qed
  qed
next
  case (Complete i c)
  show ?thesis
  proof (cases "i < length (eng_workers s)")
    case False
    with inv Complete show ?thesis by simp
  next
    case True
    show ?thesis
    proof (cases "eng_workers s ! i")
      case Idle
      with inv Complete show ?thesis by simp
    next
      case (InFlight t retries)
      with inv Complete True busy_free [of i "eng_workers s" t retries] show ?thesis
        by (simp add: pool_inv_def)
    qed
  qed
next
  case (Retry i)
  show ?thesis
  proof (cases "i < length (eng_workers s)")
    case False
    with inv Retry show ?thesis by simp
  next
    case True
    show ?thesis
    proof (cases "eng_workers s ! i")
      case Idle
      with inv Retry show ?thesis by simp
    next
      case (InFlight t retries)
      with inv Retry True busy_keep [of i "eng_workers s" t retries t 1] show ?thesis
        by (simp add: pool_inv_def)
    qed
  qed
next
  case Abort
  with inv show ?thesis by (simp add: pool_inv_def)
qed

lemma pool_inv_run: "pool_inv ctx (engine_run ctx plan acts)"
proof -
  have "pool_inv ctx s \<Longrightarrow> pool_inv ctx (fold (engine_step ctx) acts s)" for s
    by (induction acts arbitrary: s) (simp_all add: pool_inv_step)
  moreover have "pool_inv ctx (engine_init ctx plan)"
    by (simp add: pool_inv_def engine_init_def)
  ultimately show ?thesis by (simp add: engine_run_def)
qed

text \<open>
  C7. After any list of actions of the scheduler, from any plan, the requests that ended
  are among those dispatched, and the number of requests dispatched and not yet ended is
  at most the concurrency limit of the RunContext. (Every state of a run is the state
  after a prefix of its actions.)
\<close>

theorem C7_in_flight_bounded:
  "length (eng_finished (engine_run ctx plan acts)) \<le> length (eng_dispatched (engine_run ctx plan acts)) \<and>
   in_flight (engine_run ctx plan acts) \<le> ctx_concurrency ctx"
proof -
  let ?s = "engine_run ctx plan acts"
  have inv: "pool_inv ctx ?s" by (rule pool_inv_run)
  then have eq: "length (eng_dispatched ?s) = length (eng_finished ?s) + length (filter busy (eng_workers ?s))"
    and len: "length (eng_workers ?s) = ctx_concurrency ctx"
    by (simp_all add: pool_inv_def)
  have "length (filter busy (eng_workers ?s)) \<le> length (eng_workers ?s)"
    by (rule length_filter_le)
  with eq len show ?thesis by (simp add: in_flight_def)
qed

theorem C7_in_flight_bounded_witness:
  "ctx_concurrency demo_context = 2 \<and>
   in_flight (engine_run demo_context (replicate 3 (demo_case (demo_endpoint ''GET'')))
     [Take 0, Take 1, Take 0, Take 1]) = 2 \<and>
   length (eng_queue (engine_run demo_context (replicate 3 (demo_case (demo_endpoint ''GET'')))
     [Take 0, Take 1, Take 0, Take 1])) = 1 \<and>
   in_flight (engine_run demo_context (replicate 3 (demo_case (demo_endpoint ''GET'')))
     [Take 0, Take 1, Take 0, Take 1, Complete 0 NotVulnerable, Take 0]) = 2"
proof -
  let ?t = "demo_case (demo_endpoint ''GET'')"
  have m: "\<not> tc_mutating ?t" by (simp add: demo_case_def)
  have c: "ctx_concurrency demo_context = 2" by (simp add: demo_context_def)
  have p: "replicate 3 ?t = [?t, ?t, ?t]" by (simp add: numeral_3_eq_3)
  have i: "engine_init demo_context [?t, ?t, ?t] =
     \<lparr>eng_queue = [?t, ?t, ?t], eng_workers = [Idle, Idle], eng_dispatched = [],
      eng_finished = [], eng_results = [], eng_aborted = False\<rparr>"
    by (simp add: engine_init_def c numeral_2_eq_2)
  have r1: "engine_run demo_context (replicate 3 ?t) [Take 0, Take 1, Take 0, Take 1] =
     \<lparr>eng_queue = [?t], eng_workers = [InFlight ?t 0, InFlight ?t 0], eng_dispatched = [?t, ?t],
      eng_finished = [], eng_results = [], eng_aborted = False\<rparr>"
    by (simp add: engine_run_def p i m)
  have r2: "engine_run demo_context (replicate 3 ?t)
       [Take 0, Take 1, Take 0, Take 1, Complete 0 NotVulnerable, Take 0] =
     \<lparr>eng_queue = [], eng_workers = [InFlight ?t 0, InFlight ?t 0], eng_dispatched = [?t, ?t, ?t],
      eng_finished = [?t], eng_results = [(?t, Classified NotVulnerable)], eng_aborted = False\<rparr>"
    by (simp add: engine_run_def p i m)
  have a1: "in_flight (engine_run demo_context (replicate 3 ?t) [Take 0, Take 1, Take 0, Take 1]) = 2"
    unfolding r1 in_flight_def by simp
  have a2: "length (eng_queue (engine_run demo_context (replicate 3 ?t)
      [Take 0, Take 1, Take 0, Take 1])) = 1"
    unfolding r1 by simp
  have a3: "in_flight (engine_run demo_context (replicate 3 ?t)
      [Take 0, Take 1, Take 0, Take 1, Complete 0 NotVulnerable, Take 0]) = 2"
    unfolding r2 in_flight_def by simp
  from C7_in_flight_bounded [of demo_context "replicate 3 ?t" "[Take 0, Take 1, Take 0, Take 1]"]
    c a1 a2 a3
  show ?thesis by (simp only: simp_thms)
qed

subsection \<open>Safe mode\<close>

lemma list_all_update: "list_all P xs \<Longrightarrow> P x \<Longrightarrow> list_all P (xs[i := x])"
proof -
  assume "list_all P xs" "P x"
  moreover have "set (xs[i := x]) \<subseteq> insert x (set xs)" by (rule set_update_subset_insert)
  ultimately show ?thesis unfolding list_all_iff by blast
qed

lemma gate_inv_step:
  assumes u: "\<not> ctx_unsafe ctx" and inv: "gate_inv s"
  shows "gate_inv (engine_step ctx a s)"
proof (cases a)
  case (Take i)
  show ?thesis
  proof (cases "eng_queue s")
    case Nil
    with inv Take show ?thesis by simp
  next
    case (Cons t queue)
    with inv u Take show ?thesis
      by (simp add: gate_inv_def list_all_update)
  qed
next
  case (Complete i c)
  show ?thesis
  proof (cases "eng_workers s ! i")
    case Idle
    with inv Complete show ?thesis by simp
  next
    case (InFlight t retries)
    with inv Complete show ?thesis by (simp add: gate_inv_def list_all_update)
  qed
next
  case (Retry i)
  show ?thesis
  proof (cases "i < length (eng_workers s)")
    case False
    with inv Retry show ?thesis by simp
  next
    case True
    then have mem: "eng_workers s ! i \<in> set (eng_workers s)" by simp
    show ?thesis
    proof (cases "eng_workers s ! i")
      case Idle
      with inv Retry show ?thesis by simp
    next
      case (InFlight t retries)
      with mem inv have "\<not> tc_mutating t" by (auto simp: gate_inv_def list_all_iff)
      with inv Retry InFlight show ?thesis by (simp add: gate_inv_def list_all_update)
    qed
  qed
next
  case Abort
  with inv show ?thesis by (simp add: gate_inv_def)
qed

lemma gate_inv_run: "\<not> ctx_unsafe ctx \<Longrightarrow> gate_inv (engine_run ctx plan acts)"
proof -
  assume u: "\<not> ctx_unsafe ctx"
  have "gate_inv s \<Longrightarrow> gate_inv (fold (engine_step ctx) acts s)" for s
    by (induction acts arbitrary: s) (simp_all add: gate_inv_step [OF u])
  moreover have "gate_inv (engine_init ctx plan)"
    by (simp add: gate_inv_def engine_init_def list_all_iff)
  ultimately show ?thesis by (simp add: engine_run_def)
qed

lemma demo_plan:
  "map tag_mutating (concat (map (demo_rules demo_context) [demo_endpoint ''DELETE'', demo_endpoint ''GET'']))
     = [(demo_case (demo_endpoint ''DELETE''))\<lparr>tc_mutating := True\<rparr>, demo_case (demo_endpoint ''GET'')]"
  by (simp add: demo_rules_def demo_case_def demo_endpoint_def tag_mutating_def safe_method_def)

text \<open>
  C1. When RunContext.unsafe is false, the plan of the Planner holds no mutating
  TestCase, and after any list of actions of the engine, on any plan (filtered by the
  Planner or not), the number of mutating TestCases among the dispatched requests is
  zero.
\<close>

theorem C1_safe_mode:
  "\<not> ctx_unsafe ctx \<longrightarrow>
     (\<forall>t \<in> set (planner rules ctx endpoints). \<not> tc_mutating t) \<and>
     length (filter tc_mutating (eng_dispatched (engine_run ctx plan acts))) = 0"
proof
  assume u: "\<not> ctx_unsafe ctx"
  have "\<forall>t \<in> set (planner rules ctx endpoints). \<not> tc_mutating t"
    using u by (simp add: planner_def)
  moreover have "filter tc_mutating (eng_dispatched (engine_run ctx plan acts)) = []"
    using gate_inv_run [OF u, of plan acts]
    by (simp add: gate_inv_def list_all_iff filter_empty_conv)
  ultimately show "(\<forall>t \<in> set (planner rules ctx endpoints). \<not> tc_mutating t) \<and>
     length (filter tc_mutating (eng_dispatched (engine_run ctx plan acts))) = 0" by simp
qed

theorem C1_safe_mode_witness:
  "\<not> ctx_unsafe demo_context \<and>
   planner demo_rules demo_context [demo_endpoint ''DELETE'', demo_endpoint ''GET'']
     = [demo_case (demo_endpoint ''GET'')] \<and>
   eng_dispatched (engine_run demo_context
       [(demo_case (demo_endpoint ''DELETE''))\<lparr>tc_mutating := True\<rparr>, demo_case (demo_endpoint ''GET'')]
       [Take 0, Take 0])
     = [demo_case (demo_endpoint ''GET'')] \<and>
   eng_results (engine_run demo_context
       [(demo_case (demo_endpoint ''DELETE''))\<lparr>tc_mutating := True\<rparr>, demo_case (demo_endpoint ''GET'')]
       [Take 0, Take 0])
     = [((demo_case (demo_endpoint ''DELETE''))\<lparr>tc_mutating := True\<rparr>, UnsafeDisabled)] \<and>
   length (filter tc_mutating (eng_dispatched (engine_run demo_context
       [(demo_case (demo_endpoint ''DELETE''))\<lparr>tc_mutating := True\<rparr>, demo_case (demo_endpoint ''GET'')]
       [Take 0, Take 0]))) = 0"
proof -
  have u: "\<not> ctx_unsafe demo_context" by (simp add: demo_context_def)
  have p: "planner demo_rules demo_context [demo_endpoint ''DELETE'', demo_endpoint ''GET'']
     = [demo_case (demo_endpoint ''GET'')]"
    unfolding planner_def demo_plan by (simp add: u demo_case_def)
  let ?plan = "[(demo_case (demo_endpoint ''DELETE''))\<lparr>tc_mutating := True\<rparr>, demo_case (demo_endpoint ''GET'')]"
  have m: "\<not> tc_mutating (demo_case (demo_endpoint ''GET''))" by (simp add: demo_case_def)
  have r: "engine_run demo_context ?plan [Take 0, Take 0] =
     \<lparr>eng_queue = [], eng_workers = [InFlight (demo_case (demo_endpoint ''GET'')) 0, Idle],
      eng_dispatched = [demo_case (demo_endpoint ''GET'')], eng_finished = [],
      eng_results = [((demo_case (demo_endpoint ''DELETE''))\<lparr>tc_mutating := True\<rparr>, UnsafeDisabled)],
      eng_aborted = False\<rparr>"
    by (simp add: engine_run_def engine_init_def u m numeral_2_eq_2 demo_context_def)
  show ?thesis
    using C1_safe_mode [of demo_context demo_rules "[demo_endpoint ''DELETE'', demo_endpoint ''GET'']"
        ?plan "[Take 0, Take 0]"] u p
    by (simp add: r)
qed

end
